theory Spec2Isabelle
  imports Complex_Main "HOL-Library.AList" "HOL-Library.Product_Lexorder" "HOL-Library.Log_Nat"
begin

section \<open>Errors and the great-circle distance\<close>

text \<open>
  The exceptions the modelled code can raise: a dictionary read of a missing key, a name
  that is not bound, an argument outside the domain of \<open>math.sqrt\<close> or
  \<open>math.asin\<close>, and the interpreter's bound on nested calls.
\<close>

datatype error = KeyError int | NameError string | ValueError | RecursionError

text \<open>
  \<open>haversine_distance\<close> as a formula: \<open>math.radians\<close>, \<open>math.sin\<close>,
  \<open>math.cos\<close>, \<open>math.sqrt\<close> and \<open>math.asin\<close> are the functions on the real
  numbers, and nothing is rounded. This is the distance the code approximates; the
  model of the graph builder stores it as the weight of an edge. The code itself, in
  double arithmetic, is \<open>haversine_distance_fp\<close> below. \<open>hav_a\<close> is the quantity the
  source names \<open>a\<close>; \<open>math.sqrt\<close> raises \<open>ValueError\<close> on a negative argument and
  \<open>math.asin\<close> outside \<open>[-1, 1]\<close>.
\<close>

definition radians :: "real \<Rightarrow> real" where
  "radians x = x * pi / 180"

definition hav_a :: "real \<Rightarrow> real \<Rightarrow> real \<Rightarrow> real \<Rightarrow> real" where
  "hav_a lat1 lon1 lat2 lon2 =
     (let dlat = lat2 - lat1; dlon = lon2 - lon1
      in (sin (dlat / 2))\<^sup>2 + cos lat1 * cos lat2 * (sin (dlon / 2))\<^sup>2)"

definition haversine_distance :: "real \<Rightarrow> real \<Rightarrow> real \<Rightarrow> real \<Rightarrow> error + real" where
  "haversine_distance lat1 lon1 lat2 lon2 =
     (let a = hav_a (radians lat1) (radians lon1) (radians lat2) (radians lon2)
      in if a < 0 then Inl ValueError
         else if sqrt a < - 1 \<or> 1 < sqrt a then Inl ValueError
         else let c = 2 * arcsin (sqrt a); r = 6371 in Inr (c * r))"

section \<open>The graph of \<open>engine/python/graph.py\<close>\<close>

text \<open>
  Node identifiers and the vertex count are Python integers (\<open>int\<close>). An edge weight
  is a Python float, as the signature of \<open>add_edge\<close> says (\<open>weight: float\<close>); it is
  a finite float and is kept as the real number it denotes (the literal \<open>0.1\<close> is
  the double \<open>rnd (1 / 10)\<close>, not the fraction). The distances of the
  solvers, with \<open>float('inf')\<close> and the rounding of their sums, are in the section on
  floating point below.

  \<open>self.adj\<close> is a \<open>defaultdict(list)\<close>. A Python dictionary keeps its keys in
  insertion order, so it is an association list with distinct keys: \<open>map_of\<close> reads it
  and \<open>AList.update\<close> stores a value (in place for a key that is present, at the end for
  a new one). \<open>self.edges\<close> is a list of triples.
\<close>

record graph =
  V :: int
  adj :: "(int \<times> (int \<times> real) list) list"
  edges :: "(int \<times> int \<times> real) list"

text \<open>\<open>Graph(vertices)\<close>: the constructor; \<open>Graph()\<close> is \<open>Graph 0\<close>.\<close>

definition Graph :: "int \<Rightarrow> graph" where
  "Graph vertices = \<lparr>V = vertices, adj = [], edges = []\<rparr>"

text \<open>
  \<open>self.adj[u]\<close> read on the \<open>defaultdict\<close>: the stored list, or the empty list for a
  key that is missing. (Python also stores that empty list under the missing key. That
  adds a key and changes no value \<open>self.adj[u]\<close> read later, so the results of the
  solvers and of the traversal do not depend on it; their models leave the graph as it
  is.)
\<close>

definition adj_of :: "graph \<Rightarrow> int \<Rightarrow> (int \<times> real) list" where
  "adj_of g u = (case map_of (adj g) u of None \<Rightarrow> [] | Some ns \<Rightarrow> ns)"

definition add_vertex :: "graph \<Rightarrow> int \<Rightarrow> graph" where
  "add_vertex g v =
     (let g1 = (if v \<ge> V g then g\<lparr>V := v + 1\<rparr> else g)
      in if map_of (adj g1) v = None then g1\<lparr>adj := adj g1 @ [(v, [])]\<rparr> else g1)"

definition add_edge :: "graph \<Rightarrow> int \<Rightarrow> int \<Rightarrow> real \<Rightarrow> graph" where
  "add_edge g u v weight =
     (let g1 = add_vertex g u;
          g2 = add_vertex g1 v;
          g3 = g2\<lparr>adj := AList.update u (adj_of g2 u @ [(v, weight)]) (adj g2)\<rparr>
      in g3\<lparr>edges := edges g3 @ [(u, v, weight)]\<rparr>)"

text \<open>A sequence of calls on a graph object, run from left to right.\<close>

datatype graph_call = AddVertex int | AddEdge int int real

fun call :: "graph \<Rightarrow> graph_call \<Rightarrow> graph" where
  "call g (AddVertex v) = add_vertex g v"
| "call g (AddEdge u v weight) = add_edge g u v weight"

definition calls :: "graph_call list \<Rightarrow> graph \<Rightarrow> graph" where
  "calls cs g = foldl call g cs"

text \<open>The keys of the adjacency dictionary.\<close>

definition adj_keys :: "graph \<Rightarrow> int set" where
  "adj_keys g = fst ` set (adj g)"

text \<open>
  The invariant of the data model: both endpoints of every recorded edge are below the
  vertex count and are keys of the adjacency dictionary.
\<close>

definition endpoints_exist :: "graph \<Rightarrow> bool" where
  "endpoints_exist g =
     list_all (\<lambda>(u, v, w). u < V g \<and> v < V g \<and> u \<in> adj_keys g \<and> v \<in> adj_keys g) (edges g)"

section \<open>The graph builder\<close>

text \<open>
  A location is a dictionary with the keys \<open>'id'\<close>, \<open>'lat'\<close> and \<open>'lon'\<close>.
  \<open>build_graph_from_locations\<close> runs \<open>for i in range(n)\<close> around
  \<open>for j in range(i + 1, n)\<close>; the two loops are \<open>outer_loop\<close> and \<open>inner_loop\<close>
  over the lists of indices still to visit.
\<close>

record location =
  ident :: string
  lat :: real
  lon :: real

fun inner_loop :: "location list \<Rightarrow> nat \<Rightarrow> nat list \<Rightarrow> graph \<Rightarrow> error + graph" where
  "inner_loop locations i [] g = Inr g"
| "inner_loop locations i (j # js) g =
     (let loc1 = locations ! i; loc2 = locations ! j
      in case haversine_distance (lat loc1) (lon loc1) (lat loc2) (lon loc2) of
           Inl e \<Rightarrow> Inl e
         | Inr distance \<Rightarrow>
             inner_loop locations i js
               (add_edge (add_edge g (int i) (int j) distance) (int j) (int i) distance))"

fun outer_loop :: "location list \<Rightarrow> nat \<Rightarrow> nat list \<Rightarrow> graph \<Rightarrow> error + graph" where
  "outer_loop locations n [] g = Inr g"
| "outer_loop locations n (i # is) g =
     (case inner_loop locations i [i + 1..<n] g of
        Inl e \<Rightarrow> Inl e
      | Inr g' \<Rightarrow> outer_loop locations n is g')"

definition build_graph_from_locations :: "location list \<Rightarrow> error + graph" where
  "build_graph_from_locations locations =
     (let n = length locations; g = Graph (int n)
      in outer_loop locations n [0..<n] g)"

section \<open>Depth-first traversal\<close>

text \<open>
  \<open>dfs\<close> reads \<open>self.adj[u]\<close>, but \<open>u\<close> is neither a parameter nor a local of
  the method: Python looks the name up among the module's globals when the loop header
  runs. \<open>glob_u\<close> is that binding: \<open>None\<close> when the name is unbound (graph.py assigns
  \<open>u\<close> only in the loop \<open>for u, v, w in edges\<close> of its \<open>__main__\<close> block, so the name
  is unbound in every program that imports the module), \<open>Some u\<close> otherwise.

  \<open>visited\<close> is the optional argument (\<open>None\<close> at the outermost call). The set is
  shared by all nested calls, so the model returns it with the traversal. \<open>limit\<close> is the
  number of nested \<open>dfs\<close> calls the interpreter still allows. \<open>dfs_for\<close> is the loop
  over the adjacency list.
\<close>

fun dfs :: "nat \<Rightarrow> int option \<Rightarrow> graph \<Rightarrow> int \<Rightarrow> int set option \<Rightarrow> error + (int list \<times> int set)"
  and dfs_for :: "nat \<Rightarrow> int option \<Rightarrow> graph \<Rightarrow> (int \<times> real) list \<Rightarrow> int list \<Rightarrow> int set
      \<Rightarrow> error + (int list \<times> int set)" where
  "dfs 0 glob_u g source visited = Inl RecursionError"
| "dfs (Suc limit) glob_u g source visited =
     (let visited = insert source (case visited of None \<Rightarrow> {} | Some vs \<Rightarrow> vs);
          traversal = [source]
      in case glob_u of
           None \<Rightarrow> Inl (NameError ''u'')
         | Some u \<Rightarrow> dfs_for limit glob_u g (adj_of g u) traversal visited)"
| "dfs_for limit glob_u g [] traversal visited = Inr (traversal, visited)"
| "dfs_for limit glob_u g ((v, _) # rest) traversal visited =
     (if v \<notin> visited then
        (case dfs limit glob_u g v (Some visited) of
           Inl e \<Rightarrow> Inl e
         | Inr (sub, visited') \<Rightarrow> dfs_for limit glob_u g rest (traversal @ sub) visited')
      else dfs_for limit glob_u g rest traversal visited)"

text \<open>The sample road network of the module's \<open>__main__\<close> block.\<close>

definition demo :: graph where
  "demo = calls [AddEdge 0 1 10, AddEdge 0 2 5, AddEdge 1 3 1, AddEdge 2 1 3, AddEdge 2 3 9,
     AddEdge 3 4 2, AddEdge 1 4 7, AddEdge 4 5 4] (Graph 6)"

section \<open>Double-precision floating point\<close>

text \<open>
  A Python float is an IEEE 754 binary64 number. \<open>pyfloat\<close> holds what a distance can
  be: a finite value, as the real number it denotes, \<open>float('inf')\<close> or
  \<open>float('-inf')\<close>. (An edge weight is a finite float, so no sum is a NaN; the zero
  of either sign is the one value 0, as for Python's \<open>==\<close> and \<open><\<close>.) The order is
  that of Python's \<open><\<close> and \<open><=\<close> on these values.
\<close>

datatype pyfloat = NInfty | Fin real | Infty

instantiation pyfloat :: linorder
begin

fun less_eq_pyfloat :: "pyfloat \<Rightarrow> pyfloat \<Rightarrow> bool" where
  "less_eq_pyfloat NInfty y = True"
| "less_eq_pyfloat (Fin a) NInfty = False"
| "less_eq_pyfloat (Fin a) (Fin b) = (a \<le> b)"
| "less_eq_pyfloat (Fin a) Infty = True"
| "less_eq_pyfloat Infty NInfty = False"
| "less_eq_pyfloat Infty (Fin b) = False"
| "less_eq_pyfloat Infty Infty = True"

definition less_pyfloat :: "pyfloat \<Rightarrow> pyfloat \<Rightarrow> bool" where
  "less_pyfloat x y = (x \<le> y \<and> \<not> y \<le> x)"

instance
proof
  fix x y z :: pyfloat
  show "(x < y) = (x \<le> y \<and> \<not> y \<le> x)" by (simp add: less_pyfloat_def)
  show "x \<le> x" by (cases x) simp_all
  show "x \<le> y \<Longrightarrow> y \<le> z \<Longrightarrow> x \<le> z" by (cases x; cases y; cases z) simp_all
  show "x \<le> y \<Longrightarrow> y \<le> x \<Longrightarrow> x = y" by (cases x; cases y) simp_all
  show "x \<le> y \<or> y \<le> x" by (cases x; cases y) auto
qed

end

text \<open>
  The result of an arithmetic operation is its exact value rounded to the nearest
  double, ties to the even one. The finite doubles are the numbers \<open>m * 2 ^ e\<close> with
  \<open>\<bar>m\<bar> < 2 ^ 53\<close> and \<open>- 1074 \<le> e \<le> 971\<close>. \<open>rne\<close> rounds a real number to the
  nearest integer, ties to even. With \<open>scale = 2 ^ 1074\<close>, the doubles next to \<open>x\<close>
  are multiples of \<open>2 ^ k / scale\<close> for \<open>k = ulp_exp x\<close>: \<open>k\<close> is 0 up to the end of
  the first binade of normal numbers, grows by one with each binade, and stops at 2045,
  the last one. \<open>rnd x\<close> is the nearest such multiple; it is the rounded result
  wherever the operation does not overflow.
\<close>

definition rne :: "real \<Rightarrow> int" where
  "rne r = (let f = \<lfloor>r\<rfloor> in
     if r - of_int f < 1 / 2 then f
     else if 1 / 2 < r - of_int f then f + 1
     else if even f then f else f + 1)"

definition scale :: real where
  "scale = 2 ^ 1074"

definition ulp_exp :: "real \<Rightarrow> nat" where
  "ulp_exp x = min 2045 (nat (bitlen \<lfloor>\<bar>x\<bar> * scale\<rfloor> - 53))"

definition rnd :: "real \<Rightarrow> real" where
  "rnd x = of_int (rne (x * scale / 2 ^ ulp_exp x)) * 2 ^ ulp_exp x / scale"

text \<open>
  An operation overflows when the rounded value reaches \<open>2 ^ 1024\<close> in magnitude; its
  result is then an infinity. \<open>fround\<close> is rounding with overflow, and \<open>fadd d w\<close> is
  Python's \<open>d + w\<close> for a float \<open>d\<close> and a finite float \<open>w\<close>.
\<close>

definition huge :: real where
  "huge = 2 ^ 1024"

definition fround :: "real \<Rightarrow> pyfloat" where
  "fround x = (let y = rnd x in
     if huge \<le> y then Infty else if y \<le> - huge then NInfty else Fin y)"

fun fadd :: "pyfloat \<Rightarrow> real \<Rightarrow> pyfloat" where
  "fadd (Fin a) w = fround (a + w)"
| "fadd Infty w = Infty"
| "fadd NInfty w = NInfty"

section \<open>The great-circle distance in double arithmetic\<close>

text \<open>
  \<open>haversine_distance\<close> as the code computes it, for finite arguments: every operation
  and every library call is followed by rounding to the nearest double.
  \<open>math.radians(x)\<close> is \<open>x * (pi / 180)\<close>, the constant computed in doubles from the
  double nearest to \<open>pi\<close>; \<open>x ** 2\<close> is the rounded square; \<open>dlat / 2\<close>,
  \<open>2 * math.asin(...)\<close> and \<open>c * r\<close> convert the integer to a float first.
  \<open>math.sqrt\<close> is correctly rounded by IEEE 754; \<open>math.sin\<close>, \<open>math.cos\<close> and
  \<open>math.asin\<close> are the functions of the platform's C library and are taken as
  correctly rounded too (the proofs use of them only that the sine is odd,
  \<open>sin 0 = 0\<close>, \<open>\<bar>sin x\<bar> \<le> \<bar>x\<bar>\<close>, \<open>asin 0 = 0\<close>, and the ranges of the three).
  No intermediate result can overflow (\<open>radians_fp_no_overflow\<close>,
  \<open>difference_no_overflow\<close>, \<open>hav_a_fp_bounds\<close>, \<open>haversine_distance_fp_range\<close>
  below), which is why \<open>rnd\<close> is the result of each operation. \<open>math.sqrt\<close> raises
  \<open>ValueError\<close> on a negative argument and \<open>math.asin\<close> outside \<open>[-1, 1]\<close>.
\<close>

definition deg_to_rad :: real where
  "deg_to_rad = rnd (rnd pi / 180)"

definition radians_fp :: "real \<Rightarrow> real" where
  "radians_fp x = rnd (x * deg_to_rad)"

definition hav_a_fp :: "real \<Rightarrow> real \<Rightarrow> real \<Rightarrow> real \<Rightarrow> real" where
  "hav_a_fp lat1 lon1 lat2 lon2 =
     (let dlat = rnd (lat2 - lat1); dlon = rnd (lon2 - lon1)
      in rnd (rnd ((rnd (sin (rnd (dlat / 2))))\<^sup>2)
              + rnd (rnd (rnd (cos lat1) * rnd (cos lat2)) * rnd ((rnd (sin (rnd (dlon / 2))))\<^sup>2))))"

definition haversine_distance_fp :: "real \<Rightarrow> real \<Rightarrow> real \<Rightarrow> real \<Rightarrow> error + real" where
  "haversine_distance_fp lat1 lon1 lat2 lon2 =
     (let a = hav_a_fp (radians_fp lat1) (radians_fp lon1) (radians_fp lat2) (radians_fp lon2)
      in if a < 0 then Inl ValueError
         else if rnd (sqrt a) < - 1 \<or> 1 < rnd (sqrt a) then Inl ValueError
         else let c = rnd (2 * rnd (arcsin (rnd (sqrt a)))); r = 6371 in Inr (rnd (c * r)))"

section \<open>The shortest-path solver\<close>

text \<open>
  The dictionaries \<open>dist\<close> and \<open>parent\<close> are maps (the name \<open>dist\<close> is taken by the
  metric of the reals, so the variable is \<open>dists\<close>); a value of \<open>parent\<close> is a node or
  Python's \<open>None\<close>. The priority queue holds tuples \<open>(distance, vertex)\<close>, which
  Python compares lexicographically. \<open>heapq\<close> is the standard library's binary heap;
  by its contract \<open>heappop\<close> removes and returns a least item. The queue is
  therefore kept as the sorted list of its tuples: \<open>heappush\<close> inserts in order and
  \<open>heappop\<close> takes the head. (Equal tuples are equal values, so the result does not
  depend on which of them comes first.)
\<close>

type_synonym dist_map = "int \<rightharpoonup> pyfloat"
type_synonym parent_map = "int \<rightharpoonup> int option"
type_synonym heap = "(pyfloat \<times> int) list"

definition heappush :: "heap \<Rightarrow> pyfloat \<times> int \<Rightarrow> heap" where
  "heappush pq item = insort item pq"

text \<open>\<open>{i: x for i in range(n)}\<close>.\<close>

definition range_dict :: "int \<Rightarrow> 'a \<Rightarrow> (int \<rightharpoonup> 'a)" where
  "range_dict n x = (\<lambda>i. if 0 \<le> i \<and> i < n then Some x else None)"

text \<open>
  The \<open>for v, weight in self.adj[u]\<close> loop of \<open>dijkstra\<close>. Reading \<open>dist[u]\<close> or
  \<open>dist[v]\<close> for a missing key raises \<open>KeyError\<close>; \<open>dist[u] + weight\<close> is the float
  sum \<open>fadd\<close>.
\<close>

fun relax_dj :: "int \<Rightarrow> (int \<times> real) list \<Rightarrow> dist_map \<times> heap \<Rightarrow> error + dist_map \<times> heap" where
  "relax_dj u [] (dists, pq) = Inr (dists, pq)"
| "relax_dj u ((v, weight) # rest) (dists, pq) =
     (case dists u of
        None \<Rightarrow> Inl (KeyError u)
      | Some du \<Rightarrow>
          (case dists v of
             None \<Rightarrow> Inl (KeyError v)
           | Some dv \<Rightarrow>
               if fadd du weight < dv
               then relax_dj u rest (dists(v \<mapsto> fadd du weight), heappush pq (fadd du weight, v))
               else relax_dj u rest (dists, pq)))"

text \<open>
  The \<open>while pq\<close> loop of \<open>dijkstra\<close>. It terminates because every round either
  drops a queue entry of a visited node or visits a new node, and only nodes that are in
  the queue or in some adjacency list can be visited.
\<close>

definition all_neighbours :: "graph \<Rightarrow> int set" where
  "all_neighbours g = fst ` set (concat (map snd (adj g)))"

lemma set_heappush: "set (heappush pq x) = insert x (set pq)"
  by (simp add: heappush_def set_insort_key)

lemma heap_nodes_relax_dj:
  "relax_dj u ns (dists, pq) = Inr (dists', pq') \<Longrightarrow> snd ` set pq' \<subseteq> snd ` set pq \<union> fst ` set ns"
proof (induction ns arbitrary: dists pq)
  case Nil
  then show ?case by simp
next
  case (Cons a ns)
  obtain v w where a: "a = (v, w)" by (cases a)
  from Cons.prems obtain du dv where d: "dists u = Some du" "dists v = Some dv"
    by (auto simp: a split: option.splits)
  show ?case
  proof (cases "fadd du w < dv")
    case True
    with Cons.prems d
    have "relax_dj u ns (dists(v \<mapsto> fadd du w), heappush pq (fadd du w, v)) = Inr (dists', pq')"
      by (simp add: a)
    from Cons.IH [OF this] show ?thesis
      by (auto simp: a set_heappush)
  next
    case False
    with Cons.prems d have "relax_dj u ns (dists, pq) = Inr (dists', pq')"
      by (simp add: a)
    from Cons.IH [OF this] show ?thesis
      by (auto simp: a)
  qed
qed

lemma adj_of_entry:
  assumes "(v, w) \<in> set (adj_of g u)"
  shows "\<exists>ns. (u, ns) \<in> set (adj g) \<and> (v, w) \<in> set ns"
proof -
  from assms obtain ns where "map_of (adj g) u = Some ns" "(v, w) \<in> set ns"
    by (cases "map_of (adj g) u") (auto simp: adj_of_def)
  then show ?thesis
    by (blast dest: map_of_SomeD)
qed

lemma adj_of_all_neighbours: "fst ` set (adj_of g u) \<subseteq> all_neighbours g"
proof
  fix v assume "v \<in> fst ` set (adj_of g u)"
  then obtain w where "(v, w) \<in> set (adj_of g u)" by auto
  then obtain ns where "(u, ns) \<in> set (adj g)" "(v, w) \<in> set ns"
    using adj_of_entry by blast
  then have "(v, w) \<in> set (concat (map snd (adj g)))"
    by force
  then show "v \<in> all_neighbours g"
    unfolding all_neighbours_def by force
qed

function dijkstra_loop :: "graph \<Rightarrow> dist_map \<times> heap \<times> int set \<Rightarrow> error + dist_map" where
  "dijkstra_loop g (dists, pq, visited) =
     (case pq of
        [] \<Rightarrow> Inr dists
      | (d, u) # pq' \<Rightarrow>
          if u \<in> visited then dijkstra_loop g (dists, pq', visited)
          else (case relax_dj u (adj_of g u) (dists, pq') of
                  Inl e \<Rightarrow> Inl e
                | Inr (dists', pq'') \<Rightarrow> dijkstra_loop g (dists', pq'', insert u visited)))"
  by pat_completeness auto

definition todo :: "graph \<Rightarrow> heap \<Rightarrow> int set \<Rightarrow> nat" where
  "todo g pq visited = card ((all_neighbours g \<union> snd ` set pq) - visited)"

lemma todo_pop: "todo g pq' visited \<le> todo g (x # pq') visited"
  unfolding todo_def by (intro card_mono) (auto simp: all_neighbours_def)

lemma todo_visit:
  assumes "snd ` set pq'' \<subseteq> snd ` set pq' \<union> all_neighbours g" "u \<notin> visited"
  shows "todo g pq'' (insert u visited) < todo g ((d, u) # pq') visited"
  unfolding todo_def using assms
  by (intro psubset_card_mono) (auto simp: all_neighbours_def)

termination dijkstra_loop
proof (relation "measures [\<lambda>(g, dists, pq, visited). todo g pq visited,
                            \<lambda>(g, dists, pq, visited). length pq]", goal_cases)
  case 1
  show ?case by simp
next
  case (2 g dists pq visited x pq' d u)
  then show ?case using todo_pop [of g pq' visited "(d, u)"] by auto
next
  case (3 g dists pq visited x pq' d u y dists' pq'')
  then have "snd ` set pq'' \<subseteq> snd ` set pq' \<union> all_neighbours g"
    using heap_nodes_relax_dj [of u "adj_of g u" dists pq' dists' pq''] adj_of_all_neighbours [of g u]
    by auto
  with 3 show ?case using todo_visit [of pq'' pq' g u visited d] by auto
qed

declare dijkstra_loop.simps [simp del]

lemma dijkstra_loop_Nil: "dijkstra_loop g (dists, [], visited) = Inr dists"
  by (simp add: dijkstra_loop.simps)

lemma dijkstra_loop_Cons:
  "dijkstra_loop g (dists, (d, u) # pq', visited) =
     (if u \<in> visited then dijkstra_loop g (dists, pq', visited)
      else (case relax_dj u (adj_of g u) (dists, pq') of
              Inl e \<Rightarrow> Inl e
            | Inr (dists', pq'') \<Rightarrow> dijkstra_loop g (dists', pq'', insert u visited)))"
  by (simp add: dijkstra_loop.simps [of g dists "(d, u) # pq'"])

definition dijkstra :: "graph \<Rightarrow> int \<Rightarrow> error + dist_map" where
  "dijkstra g source =
     (let dists = range_dict (V g) Infty;
          dists = dists(source \<mapsto> Fin 0);
          pq = [(Fin 0, source)];
          visited = {}
      in dijkstra_loop g (dists, pq, visited))"

text \<open>
  \<open>get_shortest_path\<close>: the same relaxation with a parent pointer per node, the
  \<open>while pq\<close> loop that leaves when it pops the target, and the walk back along the
  parent pointers. The walk is a \<open>while\<close> loop over a dictionary that may hold a
  cycle, so \<open>walk\<close> is a partial function: \<open>None\<close> is a walk that never ends.
\<close>

fun relax_sp :: "int \<Rightarrow> (int \<times> real) list \<Rightarrow> dist_map \<times> parent_map \<times> heap
    \<Rightarrow> error + dist_map \<times> parent_map \<times> heap" where
  "relax_sp u [] (dists, parent, pq) = Inr (dists, parent, pq)"
| "relax_sp u ((v, weight) # rest) (dists, parent, pq) =
     (case dists u of
        None \<Rightarrow> Inl (KeyError u)
      | Some du \<Rightarrow>
          (case dists v of
             None \<Rightarrow> Inl (KeyError v)
           | Some dv \<Rightarrow>
               if fadd du weight < dv
               then relax_sp u rest
                      (dists(v \<mapsto> fadd du weight), parent(v \<mapsto> Some u),
                       heappush pq (fadd du weight, v))
               else relax_sp u rest (dists, parent, pq)))"

lemma relax_sp_dj:
  "relax_dj u ns (dists, pq) =
     map_sum id (\<lambda>(dists', parent', pq'). (dists', pq')) (relax_sp u ns (dists, parent, pq))"
  by (induction ns arbitrary: dists parent pq) (auto split: option.splits)

lemma heap_nodes_relax_sp:
  assumes "relax_sp u ns (dists, parent, pq) = Inr (dists', parent', pq')"
  shows "snd ` set pq' \<subseteq> snd ` set pq \<union> fst ` set ns"
proof -
  from assms have "relax_dj u ns (dists, pq) = Inr (dists', pq')"
    by (simp add: relax_sp_dj [of u ns dists pq parent])
  then show ?thesis by (rule heap_nodes_relax_dj)
qed

function sp_loop :: "graph \<Rightarrow> int \<Rightarrow> dist_map \<times> parent_map \<times> heap \<times> int set
    \<Rightarrow> error + dist_map \<times> parent_map" where
  "sp_loop g target (dists, parent, pq, visited) =
     (case pq of
        [] \<Rightarrow> Inr (dists, parent)
      | (d, u) # pq' \<Rightarrow>
          if u = target then Inr (dists, parent)
          else if u \<in> visited then sp_loop g target (dists, parent, pq', visited)
          else (case relax_sp u (adj_of g u) (dists, parent, pq') of
                  Inl e \<Rightarrow> Inl e
                | Inr (dists', parent', pq'') \<Rightarrow>
                    sp_loop g target (dists', parent', pq'', insert u visited)))"
  by pat_completeness auto

termination sp_loop
proof (relation "measures [\<lambda>(g, target, dists, parent, pq, visited). todo g pq visited,
                            \<lambda>(g, target, dists, parent, pq, visited). length pq]", goal_cases)
  case 1
  show ?case by simp
next
  case (2 g target dists parent pq visited x pq' d u)
  then show ?case using todo_pop [of g pq' visited "(d, u)"] by auto
next
  case (3 g target dists parent pq visited x pq' d u y dists' z parent' pq'')
  then have "snd ` set pq'' \<subseteq> snd ` set pq' \<union> all_neighbours g"
    using heap_nodes_relax_sp [of u "adj_of g u" dists parent pq' dists' parent' pq'']
      adj_of_all_neighbours [of g u]
    by auto
  with 3 show ?case using todo_visit [of pq'' pq' g u visited d] by auto
qed

declare sp_loop.simps [simp del]

lemma sp_loop_Nil: "sp_loop g target (dists, parent, [], visited) = Inr (dists, parent)"
  by (simp add: sp_loop.simps)

lemma sp_loop_Cons:
  "sp_loop g target (dists, parent, (d, u) # pq', visited) =
     (if u = target then Inr (dists, parent)
      else if u \<in> visited then sp_loop g target (dists, parent, pq', visited)
      else (case relax_sp u (adj_of g u) (dists, parent, pq') of
              Inl e \<Rightarrow> Inl e
            | Inr (dists', parent', pq'') \<Rightarrow>
                sp_loop g target (dists', parent', pq'', insert u visited)))"
  by (simp add: sp_loop.simps [of g target dists parent "(d, u) # pq'"])

partial_function (option) walk :: "parent_map \<Rightarrow> int option \<Rightarrow> int list \<Rightarrow> (error + int list) option" where
  "walk parent current path =
     (case current of
        None \<Rightarrow> Some (Inr path)
      | Some c \<Rightarrow>
          (case parent c of
             None \<Rightarrow> Some (Inl (KeyError c))
           | Some p \<Rightarrow> walk parent p (path @ [c])))"

declare walk.simps [code]

definition get_shortest_path :: "graph \<Rightarrow> int \<Rightarrow> int \<Rightarrow> (error + int list \<times> pyfloat) option" where
  "get_shortest_path g source target =
     (let dists = range_dict (V g) Infty;
          parent = range_dict (V g) None;
          dists = dists(source \<mapsto> Fin 0);
          pq = [(Fin 0, source)];
          visited = {}
      in case sp_loop g target (dists, parent, pq, visited) of
           Inl e \<Rightarrow> Some (Inl e)
         | Inr (dists, parent) \<Rightarrow>
             (case dists target of
                None \<Rightarrow> Some (Inl (KeyError target))
              | Some dt \<Rightarrow>
                  if dt = Infty then Some (Inr ([], Infty))
                  else (case walk parent (Some target) [] of
                          None \<Rightarrow> None
                        | Some (Inl e) \<Rightarrow> Some (Inl e)
                        | Some (Inr path) \<Rightarrow> Some (Inr (rev path, dt)))))"

text \<open>
  The vocabulary of the claims. A node is reachable from the source along adjacency
  entries.
\<close>

inductive reachable :: "graph \<Rightarrow> int \<Rightarrow> int \<Rightarrow> bool" for g :: graph and s :: int where
  reach_source: "reachable g s s"
| reach_edge: "reachable g s u \<Longrightarrow> (v, w) \<in> set (adj_of g u) \<Longrightarrow> reachable g s v"

code_pred reachable .

text \<open>
  The data model: a node is an integer index in \<open>[0, V)\<close>. In a graph of the model
  every neighbour stored in an adjacency list is a node, and for the solvers every
  weight is non-negative.
\<close>

definition neighbours_in_range :: "graph \<Rightarrow> bool" where
  "neighbours_in_range g =
     list_all (\<lambda>(u, ns). list_all (\<lambda>(v, w). 0 \<le> v \<and> v < V g) ns) (adj g)"

definition nonneg_weights :: "graph \<Rightarrow> bool" where
  "nonneg_weights g = list_all (\<lambda>(u, ns). list_all (\<lambda>(v, w). 0 \<le> w) ns) (adj g)"

text \<open>
  \<open>valid_path g path ws\<close>: the path is not empty, and each pair of consecutive nodes
  is an entry of the adjacency list of the first, with the weights \<open>ws\<close> in order.
\<close>

fun valid_path :: "graph \<Rightarrow> int list \<Rightarrow> real list \<Rightarrow> bool" where
  "valid_path g [] ws = False"
| "valid_path g [x] ws = (ws = [])"
| "valid_path g (x # y # zs) [] = False"
| "valid_path g (x # y # zs) (w # ws) = ((y, w) \<in> set (adj_of g x) \<and> valid_path g (y # zs) ws)"

text \<open>
  The length of a path as the solvers compute it: the float sum of its weights in path
  order, from 0 (\<open>total = 0\<close>, then \<open>total = total + w\<close> for each weight).
\<close>

definition fsum :: "real list \<Rightarrow> pyfloat" where
  "fsum ws = foldl fadd (Fin 0) ws"

text \<open>A call whose node identifiers and weight are non-negative.\<close>

fun call_ok :: "graph_call \<Rightarrow> bool" where
  "call_ok (AddVertex v) = (0 \<le> v)"
| "call_ok (AddEdge u v weight) = (0 \<le> u \<and> 0 \<le> v \<and> 0 \<le> weight)"

section \<open>Auxiliary definitions for the proofs\<close>





text \<open>
  For the floats: \<open>is_double\<close>, a value that rounding returns. For the solvers: the
  distance table both start from; the invariant that every node with a distance other
  than \<open>float('inf')\<close> is reachable; the invariants of the \<open>while\<close> loop (\<open>dj_inv\<close>)
  and of the \<open>for\<close> loop while node \<open>u\<close> with distance \<open>x\<close> is relaxed
  (\<open>mid_inv\<close>); \<open>settles\<close>, the relation between the distance tables before and
  after part of a run; \<open>pchain\<close>, a chain of parent pointers from a node back to the
  source with its float length, and the invariant \<open>p_inv\<close> that every node with a
  finite distance has one; \<open>fpath\<close>, a path from the source with its float length; and
  \<open>edges_match\<close>, the edge list and the adjacency lists holding the same edges.
\<close>

fun is_double :: "pyfloat \<Rightarrow> bool" where
  "is_double (Fin y) = (fround y = Fin y)"
| "is_double Infty = True"
| "is_double NInfty = True"

definition init_dists :: "graph \<Rightarrow> int \<Rightarrow> dist_map" where
  "init_dists g source = (range_dict (V g) Infty)(source \<mapsto> Fin 0)"

definition reach_inv :: "graph \<Rightarrow> int \<Rightarrow> dist_map \<Rightarrow> heap \<Rightarrow> bool" where
  "reach_inv g s dists pq \<longleftrightarrow>
     (\<forall>v d. dists v = Some d \<longrightarrow> d \<noteq> Infty \<longrightarrow> reachable g s v)
     \<and> (\<forall>k v. (k, v) \<in> set pq \<longrightarrow> reachable g s v \<and> dists v \<noteq> None)
     \<and> (\<forall>u v w. (v, w) \<in> set (adj_of g u) \<longrightarrow> dists v \<noteq> None)"

definition key_ok :: "dist_map \<Rightarrow> pyfloat \<times> int \<Rightarrow> bool" where
  "key_ok dists e \<longleftrightarrow> (\<exists>kx y. fst e = Fin kx \<and> dists (snd e) = Some (Fin y) \<and> y \<le> kx)"

definition floats_ok :: "dist_map \<Rightarrow> bool" where
  "floats_ok dists \<longleftrightarrow> (\<forall>v d. dists v = Some d \<longrightarrow> is_double d \<and> d \<noteq> NInfty)"

definition mid_inv :: "int \<Rightarrow> real \<Rightarrow> int set \<Rightarrow> dist_map \<Rightarrow> heap \<Rightarrow> bool" where
  "mid_inv u x vis dists pq \<longleftrightarrow>
     dists u = Some (Fin x) \<and> u \<in> vis \<and> sorted pq
     \<and> (\<forall>e \<in> set pq. key_ok dists e \<and> Fin x \<le> fst e)
     \<and> (\<forall>v y. v \<notin> vis \<longrightarrow> dists v = Some (Fin y) \<longrightarrow> (Fin y, v) \<in> set pq)
     \<and> (\<forall>v \<in> vis. \<exists>y. dists v = Some (Fin y) \<and> y \<le> x)
     \<and> floats_ok dists"

definition dj_inv :: "graph \<Rightarrow> dist_map \<Rightarrow> heap \<Rightarrow> int set \<Rightarrow> bool" where
  "dj_inv g dists pq visited \<longleftrightarrow>
     sorted pq
     \<and> (\<forall>e \<in> set pq. key_ok dists e)
     \<and> (\<forall>v y. v \<notin> visited \<longrightarrow> dists v = Some (Fin y) \<longrightarrow> (Fin y, v) \<in> set pq)
     \<and> (\<forall>v \<in> visited. \<exists>y. dists v = Some (Fin y) \<and> (\<forall>e \<in> set pq. Fin y \<le> fst e))
     \<and> (\<forall>u v w. u \<in> visited \<longrightarrow> (v, w) \<in> set (adj_of g u) \<longrightarrow>
           (\<exists>du dv. dists u = Some du \<and> dists v = Some dv \<and> dv \<le> fadd du w))
     \<and> (\<forall>u v w. (v, w) \<in> set (adj_of g u) \<longrightarrow> dists v \<noteq> None \<and> 0 \<le> w)
     \<and> floats_ok dists"

definition settles :: "int set \<Rightarrow> dist_map \<Rightarrow> dist_map \<Rightarrow> bool" where
  "settles vis dists dists' \<longleftrightarrow>
     (\<forall>v \<in> vis. dists' v = dists v)
     \<and> (\<forall>v. dists' v = None \<longleftrightarrow> dists v = None)
     \<and> (\<forall>v d. dists v = Some d \<longrightarrow> (\<exists>d'. dists' v = Some d' \<and> d' \<le> d))"

inductive pchain :: "graph \<Rightarrow> parent_map \<Rightarrow> int \<Rightarrow> int list \<Rightarrow> pyfloat \<Rightarrow> bool"
  for g :: graph and parent :: parent_map and s :: int where
  pchain_root: "parent s = Some None \<Longrightarrow> pchain g parent s [s] (Fin 0)"
| pchain_step: "pchain g parent s (u # p) y \<Longrightarrow> parent v = Some (Some u) \<Longrightarrow>
     (v, w) \<in> set (adj_of g u) \<Longrightarrow> pchain g parent s (v # u # p) (fadd y w)"

definition p_inv :: "graph \<Rightarrow> int \<Rightarrow> int set \<Rightarrow> dist_map \<Rightarrow> parent_map \<Rightarrow> bool" where
  "p_inv g s vis dists parent \<longleftrightarrow>
     (\<forall>v y. dists v = Some (Fin y) \<longrightarrow> (\<exists>p. pchain g parent s (v # p) (Fin y) \<and> set p \<subseteq> vis))"

inductive fpath :: "graph \<Rightarrow> int \<Rightarrow> int \<Rightarrow> pyfloat \<Rightarrow> bool" for g :: graph and s :: int where
  fpath_source: "fpath g s s (Fin 0)"
| fpath_edge: "fpath g s u f \<Longrightarrow> (v, w) \<in> set (adj_of g u) \<Longrightarrow> fpath g s v (fadd f w)"

definition edges_match :: "graph \<Rightarrow> bool" where
  "edges_match g \<longleftrightarrow> (\<forall>u v w. (u, v, w) \<in> set (edges g) \<longleftrightarrow> (v, w) \<in> set (adj_of g u))"

section \<open>Vertex and edge insertion\<close>

lemma V_add_vertex: "V (add_vertex g v) = (if v \<ge> V g then v + 1 else V g)"
  by (simp add: add_vertex_def Let_def)

lemma edges_add_vertex: "edges (add_vertex g v) = edges g"
  by (simp add: add_vertex_def Let_def)

lemma adj_keys_add_vertex: "adj_keys (add_vertex g v) = insert v (adj_keys g)"
  by (auto simp: add_vertex_def Let_def adj_keys_def map_of_eq_None_iff)

lemma map_of_add_vertex:
  "map_of (adj (add_vertex g v)) =
     (if map_of (adj g) v = None then (map_of (adj g))(v \<mapsto> []) else map_of (adj g))"
  by (auto simp: add_vertex_def Let_def map_add_def fun_eq_iff split: option.splits)

lemma adj_of_add_vertex: "adj_of (add_vertex g v) u = adj_of g u"
  by (simp add: adj_of_def map_of_add_vertex)

lemma V_add_edge: "V (add_edge g u v w) = max (V g) (max (u + 1) (v + 1))"
  by (simp add: add_edge_def Let_def V_add_vertex)

lemma edges_add_edge: "edges (add_edge g u v w) = edges g @ [(u, v, w)]"
  by (simp add: add_edge_def Let_def edges_add_vertex)

lemma adj_keys_add_edge: "adj_keys (add_edge g u v w) = insert u (insert v (adj_keys g))"
  by (auto simp: add_edge_def Let_def adj_keys_def dom_update
      adj_keys_add_vertex [unfolded adj_keys_def])

lemma adj_of_add_edge:
  "adj_of (add_edge g u v w) x = (if x = u then adj_of g u @ [(v, w)] else adj_of g x)"
  by (simp add: add_edge_def Let_def adj_of_def update_conv' map_of_add_vertex)

lemma endpoints_exist_add_vertex:
  assumes "endpoints_exist g"
  shows "endpoints_exist (add_vertex g v)"
  using assms
  by (auto simp: endpoints_exist_def list_all_iff V_add_vertex edges_add_vertex
      adj_keys_add_vertex)

lemma endpoints_exist_add_edge:
  assumes "endpoints_exist g"
  shows "endpoints_exist (add_edge g u v w)"
  using assms
  by (auto simp: endpoints_exist_def list_all_iff V_add_edge edges_add_edge
      adj_keys_add_edge)

lemma endpoints_exist_call: "endpoints_exist g \<Longrightarrow> endpoints_exist (call g c)"
  by (cases c) (simp_all add: endpoints_exist_add_vertex endpoints_exist_add_edge)

lemma endpoints_exist_calls: "endpoints_exist g \<Longrightarrow> endpoints_exist (calls cs g)"
  unfolding calls_def
  by (induction cs arbitrary: g) (simp_all add: endpoints_exist_call)

text \<open>
  C8. Every graph reached from the empty graph \<open>Graph()\<close> by a sequence of
  \<open>add_vertex\<close> and \<open>add_edge\<close> calls has, for each triple \<open>(u, v, w)\<close> of its edge
  list, \<open>u < V\<close> and \<open>v < V\<close>, and both \<open>u\<close> and \<open>v\<close> are keys of the adjacency
  dictionary.
\<close>

theorem C8_edge_endpoints_exist:
  "\<forall>(u, v, w) \<in> set (edges (calls cs (Graph 0))).
     u < V (calls cs (Graph 0)) \<and> v < V (calls cs (Graph 0))
     \<and> u \<in> adj_keys (calls cs (Graph 0)) \<and> v \<in> adj_keys (calls cs (Graph 0))"
proof -
  have "endpoints_exist (Graph 0)"
    by (simp add: endpoints_exist_def Graph_def)
  then have "endpoints_exist (calls cs (Graph 0))"
    by (rule endpoints_exist_calls)
  then show ?thesis
    by (simp add: endpoints_exist_def list_all_iff)
qed

theorem C8_edge_endpoints_exist_witness:
  "edges (calls [AddVertex 1, AddEdge 3 0 2] (Graph 0)) = [(3, 0, 2)]
   \<and> (3::int) < V (calls [AddVertex 1, AddEdge 3 0 2] (Graph 0))
   \<and> (0::int) < V (calls [AddVertex 1, AddEdge 3 0 2] (Graph 0))
   \<and> 3 \<in> adj_keys (calls [AddVertex 1, AddEdge 3 0 2] (Graph 0))
   \<and> 0 \<in> adj_keys (calls [AddVertex 1, AddEdge 3 0 2] (Graph 0))"
proof -
  have e: "edges (calls [AddVertex 1, AddEdge 3 0 2] (Graph 0)) = [(3, 0, 2)]"
    by (simp add: calls_def edges_add_edge edges_add_vertex Graph_def)
  from C8_edge_endpoints_exist [of "[AddVertex 1, AddEdge 3 0 2]"] e
  show ?thesis by simp
qed

text \<open>
  C9. \<open>add_vertex\<close> is idempotent: a second call \<open>add_vertex(v)\<close> right after a first
  leaves the vertex count, the adjacency dictionary and the edge list as the first call
  left them; the first call makes the vertex count \<open>v + 1\<close> when \<open>v >= V\<close> and leaves
  it unchanged otherwise.
\<close>

theorem C9_add_vertex_idempotent:
  "add_vertex (add_vertex g v) v = add_vertex g v
   \<and> V (add_vertex g v) = (if v \<ge> V g then v + 1 else V g)"
proof -
  have "map_of (adj (add_vertex g v)) v \<noteq> None"
    by (simp add: map_of_add_vertex)
  moreover have "\<not> v \<ge> V (add_vertex g v)"
    by (simp add: V_add_vertex)
  ultimately have "add_vertex (add_vertex g v) v = add_vertex g v"
    by (simp add: add_vertex_def [of "add_vertex g v"] Let_def)
  then show ?thesis
    by (simp add: V_add_vertex)
qed

section \<open>The great-circle distance over the reals\<close>










section \<open>The graph builder builds the complete graph\<close>

















text \<open>
  C6 (as amended). An empty point list is not reported as an error: the builder returns
  the empty graph, with \<open>V = 0\<close>, no adjacency entry and no edge.
\<close>

theorem C6_empty_point_set_empty_graph:
  "build_graph_from_locations [] = Inr \<lparr>V = 0, adj = [], edges = []\<rparr>"
  by (simp add: build_graph_from_locations_def Graph_def)

text \<open>The claim as stated fails: on the empty list the builder raises no error.\<close>

theorem C6_empty_point_set_error_counterexample:
  "\<not> (\<exists>e. build_graph_from_locations [] = Inl e)"
  by (simp add: build_graph_from_locations_def)

section \<open>Depth-first traversal\<close>

text \<open>
  C5. The claim is that \<open>dfs(source)\<close> returns the depth-first visiting order from
  \<open>source\<close>. With the name \<open>u\<close> unbound, every call that the interpreter admits
  raises \<open>NameError\<close> at the loop header, whatever the graph and the source.
\<close>

theorem C5_dfs_raises_NameError:
  "dfs (Suc limit) None g source None = Inl (NameError ''u'')"
  by simp

text \<open>
  With \<open>u\<close> bound as the \<open>__main__\<close> block leaves it (to 4, the source of the last
  sample edge), \<open>dfs(0)\<close> on the sample network returns \<open>[0, 5]\<close>, which is not the
  depth-first order \<open>[0, 1, 3, 4, 5, 2]\<close> from node 0 either.
\<close>

lemma dfs_demo_bound_u: "dfs 1000 (Some 4) demo 0 None = Inr ([0, 5], {5, 0})"
  by code_simp

section \<open>Rounding to the nearest double\<close>

text \<open>
  Rounding is monotone and odd, and it returns every double unchanged; so a sum
  with a non-negative weight is not below the float it starts from, and float addition
  is monotone in its first argument.
\<close>

lemma rne_of_int [simp]: "rne (of_int n) = n"
  by (simp add: rne_def)

lemma rne_cases: "rne r = \<lfloor>r\<rfloor> \<or> rne r = \<lfloor>r\<rfloor> + 1"
  by (simp add: rne_def Let_def)

lemma rne_mono: "r \<le> r' \<Longrightarrow> rne r \<le> rne r'"
proof -
  assume le: "r \<le> r'"
  then have f: "\<lfloor>r\<rfloor> \<le> \<lfloor>r'\<rfloor>" by (rule floor_mono)
  show ?thesis
  proof (cases "\<lfloor>r\<rfloor> = \<lfloor>r'\<rfloor>")
    case True
    with le show ?thesis by (auto simp: rne_def Let_def)
  next
    case False
    with f have "\<lfloor>r\<rfloor> + 1 \<le> \<lfloor>r'\<rfloor>" by simp
    moreover have "rne r \<le> \<lfloor>r\<rfloor> + 1" using rne_cases [of r] by auto
    moreover have "\<lfloor>r'\<rfloor> \<le> rne r'" using rne_cases [of r'] by auto
    ultimately show ?thesis by linarith
  qed
qed

lemma rne_minus: "rne (- r) = - rne r"
proof (cases "r = of_int \<lfloor>r\<rfloor>")
  case True
  then obtain n where "r = of_int n" ..
  then have "- r = of_int (- n)" by simp
  then have "rne (- r) = - n" by (simp only: rne_of_int)
  with \<open>r = of_int n\<close> show ?thesis by simp
next
  case False
  have 1: "of_int \<lfloor>r\<rfloor> < r" "r < of_int \<lfloor>r\<rfloor> + 1"
    using False of_int_floor_le [of r] by linarith+
  have "\<lfloor>- r\<rfloor> = - \<lfloor>r\<rfloor> - 1"
  proof (rule floor_unique)
    have e: "of_int (- \<lfloor>r\<rfloor> - 1) = - of_int \<lfloor>r\<rfloor> - (1::real)" by simp
    show "of_int (- \<lfloor>r\<rfloor> - 1) \<le> - r" unfolding e using 1 by linarith
    show "- r < of_int (- \<lfloor>r\<rfloor> - 1) + 1" unfolding e using 1 by linarith
  qed
  then show ?thesis
    using 1 by (auto simp: rne_def Let_def)
qed

lemma rne_nonneg: "0 \<le> r \<Longrightarrow> 0 \<le> rne r"
  using rne_mono [of 0 r] rne_of_int [of 0] by simp

lemma scale_pos [simp]: "0 < scale" "0 \<le> scale" "scale \<noteq> 0" "\<bar>scale\<bar> = scale"
  by (simp_all add: scale_def)

lemma ulp_exp_le: "ulp_exp x \<le> 2045"
  by (simp add: ulp_exp_def)

lemma ulp_exp_minus [simp]: "ulp_exp (- x) = ulp_exp x"
  by (simp add: ulp_exp_def)

lemma ulp_exp_lower:
  assumes "0 < ulp_exp x"
  shows "2 ^ (ulp_exp x + 52) \<le> \<bar>x\<bar> * scale"
proof -
  define A where "A = \<lfloor>\<bar>x\<bar> * scale\<rfloor>"
  define k where "k = ulp_exp x"
  have k: "k = min 2045 (nat (bitlen A - 53))"
    by (simp add: k_def A_def ulp_exp_def)
  with assms have b: "int k + 53 \<le> bitlen A" by (auto simp: k_def)
  then have "0 < bitlen A" by linarith
  then have A0: "0 < A" using bitlen_eq_zero_iff [of A] bitlen_nonneg [of A] by linarith
  from bitlen_bounds [OF A0] have "2 ^ nat (bitlen A - 1) \<le> A" ..
  moreover have "(2::int) ^ (k + 52) \<le> 2 ^ nat (bitlen A - 1)"
    using b by (intro power_increasing) auto
  ultimately have "(2::int) ^ (k + 52) \<le> A" by linarith
  then have "(2::real) ^ (k + 52) \<le> of_int A"
    by (metis of_int_le_iff of_int_numeral of_int_power)
  also have "\<dots> \<le> \<bar>x\<bar> * scale" by (simp add: A_def)
  finally show ?thesis by (simp add: k_def)
qed

lemma ulp_exp_upper:
  assumes "ulp_exp x < 2045"
  shows "\<bar>x\<bar> * scale < 2 ^ (ulp_exp x + 53)"
proof -
  define A where "A = \<lfloor>\<bar>x\<bar> * scale\<rfloor>"
  define k where "k = ulp_exp x"
  have k: "k = min 2045 (nat (bitlen A - 53))"
    by (simp add: k_def A_def ulp_exp_def)
  with assms have b: "bitlen A \<le> int k + 53" by (auto simp: k_def)
  have A0: "0 \<le> A" by (simp add: A_def)
  have "A < 2 ^ nat (bitlen A)"
  proof (cases "A = 0")
    case True
    then show ?thesis by simp
  next
    case False
    with A0 have "0 < A" by simp
    from bitlen_bounds [OF this] show ?thesis ..
  qed
  moreover have "(2::int) ^ nat (bitlen A) \<le> 2 ^ (k + 53)"
    using b by (intro power_increasing) auto
  ultimately have "A + 1 \<le> 2 ^ (k + 53)" by linarith
  then have "of_int (A + 1) \<le> (2::real) ^ (k + 53)"
    by (metis of_int_le_iff of_int_numeral of_int_power)
  moreover have "\<bar>x\<bar> * scale < of_int (A + 1)"
    unfolding A_def by linarith
  ultimately show ?thesis by (simp add: k_def)
qed

lemma rnd_minus: "rnd (- x) = - rnd x"
  by (simp add: rnd_def rne_minus)

lemma rnd_nonneg: "0 \<le> x \<Longrightarrow> 0 \<le> rnd x"
  by (simp add: rnd_def rne_nonneg)

lemma pow2_div: "n \<le> m \<Longrightarrow> (2::real) ^ m / 2 ^ n = of_int (2 ^ (m - n))"
proof -
  assume "n \<le> m"
  then have "(2::real) ^ m = 2 ^ (m - n) * 2 ^ n" by (simp flip: power_add)
  then show ?thesis by simp
qed

lemma rnd_mono_nonneg:
  assumes "0 \<le> x" "x \<le> y"
  shows "rnd x \<le> rnd y"
proof -
  define X where "X = x * scale"
  define Y where "Y = y * scale"
  define kx where "kx = ulp_exp x"
  define ky where "ky = ulp_exp y"
  have XY: "0 \<le> X" "X \<le> Y" using assms by (simp_all add: X_def Y_def)
  have ax: "\<bar>x\<bar> * scale = X" "\<bar>y\<bar> * scale = Y"
    using assms by (simp_all add: X_def Y_def)
  have k: "kx \<le> ky"
  proof (rule ccontr)
    assume "\<not> kx \<le> ky"
    then have lt: "ky < kx" by simp
    then have "0 < kx" by simp
    from ulp_exp_lower [of x] this have 1: "2 ^ (kx + 52) \<le> X"
      by (simp add: kx_def ax)
    from lt ulp_exp_le [of x] have "ky < 2045" by (simp add: kx_def)
    from ulp_exp_upper [of y] this have 2: "Y < 2 ^ (ky + 53)"
      by (simp add: ky_def ax)
    have "(2::real) ^ (ky + 53) \<le> 2 ^ (kx + 52)"
      using lt by (intro power_increasing) auto
    with 1 2 XY show False by linarith
  qed
  have main: "of_int (rne (X / 2 ^ kx)) * 2 ^ kx \<le> (of_int (rne (Y / 2 ^ ky)) * 2 ^ ky :: real)"
  proof (cases "kx = ky")
    case True
    have "X / 2 ^ ky \<le> Y / 2 ^ ky" using XY by (simp add: divide_right_mono)
    then have "rne (X / 2 ^ ky) \<le> rne (Y / 2 ^ ky)" by (rule rne_mono)
    then have "(of_int (rne (X / 2 ^ ky)) :: real) \<le> of_int (rne (Y / 2 ^ ky))" by simp
    then show ?thesis unfolding True by (simp add: mult_right_mono)
  next
    case False
    with k have lt: "kx < ky" by simp
    define B where "B = (2::real) ^ (ky + 52)"
    from lt have "0 < ky" by simp
    from ulp_exp_lower [of y] this have 1: "B \<le> Y"
      by (simp add: ky_def ax B_def)
    from lt ulp_exp_le [of y] have "kx < 2045" by (simp add: ky_def)
    from ulp_exp_upper [of x] this have "X < 2 ^ (kx + 53)"
      by (simp add: kx_def ax)
    moreover have "(2::real) ^ (kx + 53) \<le> B"
      unfolding B_def using lt by (intro power_increasing) auto
    ultimately have 2: "X \<le> B" by linarith
    have bx: "B / 2 ^ kx = of_int (2 ^ (ky + 52 - kx))"
      unfolding B_def using lt by (intro pow2_div) simp
    have by': "B / 2 ^ ky = of_int (2 ^ 52)"
      unfolding B_def using pow2_div [of ky "ky + 52"] by simp
    have "X / 2 ^ kx \<le> B / 2 ^ kx" using 2 by (simp add: divide_right_mono)
    then have "rne (X / 2 ^ kx) \<le> rne (B / 2 ^ kx)" by (rule rne_mono)
    then have "rne (X / 2 ^ kx) \<le> 2 ^ (ky + 52 - kx)"
      unfolding bx rne_of_int .
    then have "(of_int (rne (X / 2 ^ kx)) :: real) \<le> of_int (2 ^ (ky + 52 - kx))"
      by (simp only: of_int_le_iff)
    then have "(of_int (rne (X / 2 ^ kx)) :: real) * 2 ^ kx \<le> of_int (2 ^ (ky + 52 - kx)) * 2 ^ kx"
      by (simp add: mult_right_mono)
    also have "\<dots> = B"
      using bx by (simp add: field_simps)
    finally have l: "(of_int (rne (X / 2 ^ kx)) :: real) * 2 ^ kx \<le> B" .
    have "B / 2 ^ ky \<le> Y / 2 ^ ky" using 1 by (simp add: divide_right_mono)
    then have "rne (B / 2 ^ ky) \<le> rne (Y / 2 ^ ky)" by (rule rne_mono)
    then have "2 ^ 52 \<le> rne (Y / 2 ^ ky)"
      unfolding by' rne_of_int .
    then have "(of_int (2 ^ 52) :: real) \<le> of_int (rne (Y / 2 ^ ky))"
      by (simp only: of_int_le_iff)
    then have "(of_int (2 ^ 52) :: real) * 2 ^ ky \<le> of_int (rne (Y / 2 ^ ky)) * 2 ^ ky"
      by (simp add: mult_right_mono)
    moreover have "(of_int (2 ^ 52) :: real) * 2 ^ ky = B"
      using by' by (simp add: field_simps)
    ultimately have "B \<le> of_int (rne (Y / 2 ^ ky)) * 2 ^ ky" by (simp only:)
    with l show ?thesis by linarith
  qed
  have "rnd x = of_int (rne (X / 2 ^ kx)) * 2 ^ kx / scale"
    by (simp add: rnd_def X_def kx_def)
  moreover have "rnd y = of_int (rne (Y / 2 ^ ky)) * 2 ^ ky / scale"
    by (simp add: rnd_def Y_def ky_def)
  ultimately show ?thesis using main by (simp add: divide_right_mono)
qed

lemma rnd_mono:
  assumes "x \<le> y"
  shows "rnd x \<le> rnd y"
proof -
  consider "0 \<le> x" | "y \<le> 0" | "x < 0" "0 < y" by linarith
  then show ?thesis
  proof cases
    case 1
    from 1 assms show ?thesis by (rule rnd_mono_nonneg)
  next
    case 2
    then have "0 \<le> - y" "- y \<le> - x" using assms by simp_all
    from rnd_mono_nonneg [OF this] show ?thesis by (simp add: rnd_minus)
  next
    case 3
    have "0 \<le> rnd (- x)" using 3 by (intro rnd_nonneg) simp
    then have "rnd x \<le> 0" by (simp add: rnd_minus)
    moreover have "0 \<le> rnd y" using 3 by (intro rnd_nonneg) simp
    ultimately show ?thesis by linarith
  qed
qed

lemma rnd_fix:
  assumes k: "k \<le> 2045" and m: "\<bar>m\<bar> < 2 ^ 53 \<or> k = 2045"
  shows "rnd (of_int m * 2 ^ k / scale) = of_int m * 2 ^ k / scale"
proof -
  define x :: real where "x = of_int m * 2 ^ k / scale"
  define k' where "k' = ulp_exp x"
  have X: "x * scale = of_int m * 2 ^ k" by (simp add: x_def)
  have le: "k' \<le> k"
  proof (rule ccontr)
    assume "\<not> k' \<le> k"
    then have lt: "k < k'" by simp
    with ulp_exp_le [of x] k m have m': "\<bar>m\<bar> < 2 ^ 53" by (auto simp: k'_def)
    from lt have "0 < k'" by simp
    from ulp_exp_lower [of x] this have "2 ^ (k' + 52) \<le> \<bar>x\<bar> * scale"
      by (simp add: k'_def)
    also have "\<bar>x\<bar> * scale = \<bar>of_int m\<bar> * 2 ^ k"
    proof -
      have "\<bar>x\<bar> * scale = \<bar>x * scale\<bar>" by (simp add: abs_mult)
      also have "\<dots> = \<bar>of_int m\<bar> * 2 ^ k" unfolding X by (simp add: abs_mult)
      finally show ?thesis .
    qed
    also have "\<dots> < 2 ^ 53 * 2 ^ k"
    proof -
      from m' have "(of_int \<bar>m\<bar> :: real) < of_int (2 ^ 53)"
        by (simp only: of_int_less_iff)
      then have "\<bar>of_int m :: real\<bar> < 2 ^ 53" by simp
      then show ?thesis by (simp add: mult_strict_right_mono)
    qed
    also have "\<dots> = 2 ^ (k + 53)" by (simp add: power_add)
    also have "\<dots> \<le> 2 ^ (k' + 52)" using lt by (intro power_increasing) auto
    finally show False by simp
  qed
  have "x * scale / 2 ^ k' = of_int m * (2 ^ k / 2 ^ k')" by (simp add: X)
  also have "\<dots> = of_int m * of_int (2 ^ (k - k'))" using le by (simp only: pow2_div)
  also have "\<dots> = of_int (m * 2 ^ (k - k'))" by simp
  finally have "rne (x * scale / 2 ^ k') = m * 2 ^ (k - k')" by (simp only: rne_of_int)
  then have "rnd x = of_int (m * 2 ^ (k - k')) * 2 ^ k' / scale"
    by (simp add: rnd_def k'_def)
  also have "\<dots> = of_int m * (2 ^ (k - k') * 2 ^ k') / scale" by simp
  also have "(2::real) ^ (k - k') * 2 ^ k' = 2 ^ k" using le by (simp flip: power_add)
  finally show ?thesis by (simp add: x_def)
qed

lemma rnd_idem: "rnd (rnd x) = rnd x"
proof -
  define k where "k = ulp_exp x"
  define m where "m = rne (x * scale / 2 ^ k)"
  have r: "rnd x = of_int m * 2 ^ k / scale" by (simp add: rnd_def m_def k_def)
  have k: "k \<le> 2045" by (simp add: k_def ulp_exp_le)
  show ?thesis
  proof (cases "\<bar>m\<bar> < 2 ^ 53 \<or> k = 2045")
    case True
    from rnd_fix [OF k True] show ?thesis by (simp add: r)
  next
    case False
    then have k': "k < 2045" and m': "2 ^ 53 \<le> \<bar>m\<bar>" using k by auto
    from ulp_exp_upper [of x] k' have "\<bar>x\<bar> * scale < 2 ^ (k + 53)" by (simp add: k_def)
    then have "\<bar>x * scale / 2 ^ k\<bar> < 2 ^ 53"
      by (simp add: abs_mult power_add field_simps)
    then have b: "- (2 ^ 53) \<le> x * scale / 2 ^ k" "x * scale / 2 ^ k \<le> 2 ^ 53" by argo+
    have "rne (of_int (- (2 ^ 53))) \<le> m" unfolding m_def using b(1) by (intro rne_mono) simp
    moreover have "m \<le> rne (of_int (2 ^ 53))" unfolding m_def using b(2) by (intro rne_mono) simp
    ultimately have "- (2 ^ 53) \<le> m" "m \<le> 2 ^ 53" by (simp_all only: rne_of_int)
    with m' consider "m = 2 ^ 53" | "m = - (2 ^ 53)" by linarith
    then obtain m2 :: int where m2: "\<bar>m2\<bar> < 2 ^ 53" "m = m2 * 2"
    proof cases
      case 1
      then have "\<bar>2 ^ 52 :: int\<bar> < 2 ^ 53" "m = 2 ^ 52 * 2" by simp_all
      then show ?thesis by (rule that)
    next
      case 2
      then have "\<bar>- (2 ^ 52) :: int\<bar> < 2 ^ 53" "m = - (2 ^ 52) * 2" by simp_all
      then show ?thesis by (rule that)
    qed
    have "rnd x = of_int m2 * 2 ^ Suc k / scale" by (simp add: r m2(2))
    moreover have "rnd (of_int m2 * 2 ^ Suc k / scale) = of_int m2 * 2 ^ Suc k / scale"
      using k' m2(1) by (intro rnd_fix) auto
    ultimately show ?thesis by simp
  qed
qed

lemma less_pyfloat_simps [simp]:
  "Fin a < Fin b \<longleftrightarrow> a < b" "Fin a < Infty" "NInfty < Fin a" "NInfty < Infty"
  "\<not> Infty < x" "\<not> x < NInfty"
  by (cases x; auto simp: less_pyfloat_def)+

lemma le_pyfloat_simps [simp]:
  "x \<le> Infty" "Infty \<le> x \<longleftrightarrow> x = Infty" "x \<le> NInfty \<longleftrightarrow> x = NInfty"
  by (cases x; simp)+

lemma huge_pos [simp]: "0 < huge" "2 ^ 53 < huge"
  by (simp_all add: huge_def)

lemma fround_mono: "x \<le> y \<Longrightarrow> fround x \<le> fround y"
  using rnd_mono [of x y] by (auto simp: fround_def Let_def)

lemma fround_Fin: "fround x = Fin y \<longleftrightarrow> y = rnd x \<and> - huge < rnd x \<and> rnd x < huge"
  by (auto simp: fround_def Let_def)

lemma fround_fix: "rnd x = x \<Longrightarrow> - huge < x \<Longrightarrow> x < huge \<Longrightarrow> fround x = Fin x"
  by (simp add: fround_Fin)

lemma fround_idem: "fround x = Fin y \<Longrightarrow> fround y = Fin y"
  by (simp add: fround_Fin rnd_idem)

lemma fround_double: "is_double (fround x)"
  by (cases "fround x") (auto dest: fround_idem)

lemma fround_minus: "fround (- x) = (case fround x of Fin y \<Rightarrow> Fin (- y) | Infty \<Rightarrow> NInfty | NInfty \<Rightarrow> Infty)"
  using huge_pos(1) by (auto simp: fround_def Let_def rnd_minus simp del: huge_pos)

lemma rnd_of_int: "\<bar>n\<bar> < 2 ^ 53 \<Longrightarrow> rnd (of_int n) = of_int n"
  using rnd_fix [of 1074 n] by (simp add: scale_def)

lemma fround_of_int:
  assumes "\<bar>n\<bar> < 2 ^ 53"
  shows "fround (of_int n) = Fin (of_int n)"
proof -
  from assms have "(of_int \<bar>n\<bar> :: real) < of_int (2 ^ 53)" by (simp only: of_int_less_iff)
  then have "\<bar>of_int n :: real\<bar> < 2 ^ 53" by simp
  then have "- huge < (of_int n :: real)" "(of_int n :: real) < huge"
    using huge_pos(2) by linarith+
  with rnd_of_int [OF assms] show ?thesis by (intro fround_fix)
qed

lemma fround_numeral [simp]:
  "(numeral n :: int) < 2 ^ 53 \<Longrightarrow> fround (numeral n) = Fin (numeral n)"
  using fround_of_int [of "numeral n"] by simp

lemma fround_0 [simp]: "fround 0 = Fin 0"
  using fround_of_int [of 0] by simp

lemma fround_1 [simp]: "fround 1 = Fin 1"
  using fround_of_int [of 1] by simp

lemma rnd_max: "rnd huge = huge"
proof -
  have "of_int (2 ^ 53) * 2 ^ 2045 / scale = huge" by (simp add: scale_def huge_def)
  with rnd_fix [of 2045 "2 ^ 53"] show ?thesis by (simp only:) simp
qed

lemma fround_overflow: "huge \<le> x \<Longrightarrow> fround x = Infty"
  using rnd_mono [of huge x] by (simp add: fround_def rnd_max)

lemma fround_pow2_1023: "fround (2 ^ 1023) = Fin (2 ^ 1023)"
proof -
  have "of_int (2 ^ 52) * 2 ^ 2045 / scale = 2 ^ 1023" by (simp add: scale_def)
  with rnd_fix [of 2045 "2 ^ 52"] have "rnd (2 ^ 1023) = 2 ^ 1023" by (simp only:) simp
  then show ?thesis by (intro fround_fix) (simp_all add: huge_def)
qed

lemma fround_twice_pow2_1023: "fround (2 ^ 1023 + 2 ^ 1023) = Infty"
  by (rule fround_overflow) (simp add: huge_def)

lemma fadd_double: "is_double (fadd d w)"
  by (cases d) (simp_all add: fround_double)

lemma fadd_mono: "d \<le> d' \<Longrightarrow> fadd d w \<le> fadd d' w"
  by (cases d; cases d') (simp_all add: fround_mono)

lemma fadd_ge:
  assumes "is_double d" "0 \<le> w"
  shows "d \<le> fadd d w"
proof (cases d)
  case (Fin a)
  with assms have "fround a = Fin a" by simp
  moreover have "fround a \<le> fround (a + w)" using assms(2) by (intro fround_mono) simp
  ultimately show ?thesis using Fin by simp
qed simp_all

text \<open>
  Two sums in this arithmetic: \<open>2.0 ** 1023 + 2.0 ** 1023\<close> overflows to
  \<open>float('inf')\<close>, and \<open>2.0 ** 53 + 1.0\<close> is rounded to \<open>2.0 ** 53\<close>.
\<close>

lemma fadd_overflow: "fadd (fadd (Fin 0) (2 ^ 1023)) (2 ^ 1023) = Infty"
proof -
  have "fadd (Fin 0) (2 ^ 1023) = Fin (2 ^ 1023)"
    by (simp only: fadd.simps add_0 fround_pow2_1023)
  then show ?thesis
    by (simp only: fadd.simps fround_twice_pow2_1023)
qed

lemma ulp_exp_eq:
  assumes "2 ^ (k + 52) \<le> \<bar>x\<bar> * scale" "\<bar>x\<bar> * scale < 2 ^ (k + 53)" "k \<le> 2045"
  shows "ulp_exp x = k"
proof (rule ccontr)
  assume "ulp_exp x \<noteq> k"
  then consider "k < ulp_exp x" | "ulp_exp x < k" by linarith
  then show False
  proof cases
    case 1
    then have "0 < ulp_exp x" by simp
    from ulp_exp_lower [OF this] assms(2) have "(2::real) ^ (ulp_exp x + 52) < 2 ^ (k + 53)"
      by linarith
    moreover have "(2::real) ^ (k + 53) \<le> 2 ^ (ulp_exp x + 52)"
      using 1 by (intro power_increasing) auto
    ultimately show False by linarith
  next
    case 2
    with assms(3) have "ulp_exp x < 2045" by simp
    from ulp_exp_upper [OF this] assms(1) have "(2::real) ^ (k + 52) < 2 ^ (ulp_exp x + 53)"
      by linarith
    moreover have "(2::real) ^ (ulp_exp x + 53) \<le> 2 ^ (k + 52)"
      using 2 by (intro power_increasing) auto
    ultimately show False by linarith
  qed
qed

lemma fadd_rounds: "fadd (Fin (2 ^ 53)) 1 = Fin (2 ^ 53)"
proof -
  have k: "ulp_exp (2 ^ 53 + 1) = 1075"
    by (rule ulp_exp_eq) (simp_all add: scale_def)
  have "(2 ^ 53 + 1) * scale / 2 ^ 1075 = (2 ^ 52 + 1 / 2 :: real)"
    by (simp add: scale_def)
  moreover have "rne (2 ^ 52 + 1 / 2) = 2 ^ 52"
    by (simp add: rne_def)
  ultimately have "rnd (2 ^ 53 + 1) = 2 ^ 52 * 2 ^ 1075 / scale"
    by (simp only: rnd_def k) simp
  also have "\<dots> = 2 ^ 53" by (simp add: scale_def)
  finally have "rnd (2 ^ 53 + 1) = 2 ^ 53" .
  then show ?thesis using huge_pos(2) by (simp add: fround_Fin)
qed

section \<open>The great-circle distance in double arithmetic\<close>

lemma rnd_0 [simp]: "rnd 0 = 0"
  using rnd_of_int [of 0] by simp

lemma rnd_tiny:
  assumes "\<bar>x\<bar> * scale < 1 / 2"
  shows "rnd x = 0"
proof -
  have "\<lfloor>\<bar>x\<bar> * scale\<rfloor> = 0" using assms by (intro floor_unique) simp_all
  then have k: "ulp_exp x = 0" by (simp add: ulp_exp_def)
  have "\<bar>x * scale\<bar> < 1 / 2" using assms by (simp add: abs_mult)
  then have "\<lfloor>x * scale\<rfloor> = 0 \<or> \<lfloor>x * scale\<rfloor> = - 1" by linarith
  with \<open>\<bar>x * scale\<bar> < 1 / 2\<close> have "rne (x * scale) = 0"
    unfolding rne_def Let_def by (auto; linarith)
  then show ?thesis by (simp add: rnd_def k)
qed

lemma sin_half_sq_swap:
  "rnd ((rnd (sin (rnd (rnd (y - x) / 2))))\<^sup>2) = rnd ((rnd (sin (rnd (rnd (x - y) / 2))))\<^sup>2)"
proof -
  have "rnd (y - x) = - rnd (x - y)" using rnd_minus [of "x - y"] by simp
  then have "rnd (rnd (y - x) / 2) = - rnd (rnd (x - y) / 2)"
    using rnd_minus [of "rnd (x - y) / 2"] by simp
  then have "rnd (sin (rnd (rnd (y - x) / 2))) = - rnd (sin (rnd (rnd (x - y) / 2)))"
    using rnd_minus [of "sin (rnd (rnd (x - y) / 2))"] by simp
  then show ?thesis by simp
qed

lemma hav_a_fp_sym: "hav_a_fp x l1 y l2 = hav_a_fp y l2 x l1"
  unfolding hav_a_fp_def Let_def
  by (simp only: sin_half_sq_swap [of y x] sin_half_sq_swap [of l2 l1] mult.commute [of "rnd (cos x)"])

lemma hav_a_fp_same: "hav_a_fp x l x l = 0"
  by (simp add: hav_a_fp_def)

lemma rnd_pow2_neg: "k \<le> 1074 \<Longrightarrow> rnd (1 / 2 ^ k) = 1 / 2 ^ k"
proof -
  assume k: "k \<le> 1074"
  have e: "scale = 2 ^ (1074 - k) * 2 ^ k" unfolding scale_def using k by (simp flip: power_add)
  have "of_int 1 * 2 ^ (1074 - k) / scale = (2::real) ^ (1074 - k) / (2 ^ (1074 - k) * 2 ^ k)"
    by (subst e) simp
  also have "\<dots> = 1 / 2 ^ k" by simp
  finally have "of_int 1 * 2 ^ (1074 - k) / scale = 1 / 2 ^ k" .
  with rnd_fix [of "1074 - k" 1] show ?thesis by simp
qed

lemma deg_to_rad_bounds: "0 \<le> deg_to_rad" "deg_to_rad \<le> 1"
proof -
  have p: "0 \<le> rnd pi" by (intro rnd_nonneg) simp
  then show "0 \<le> deg_to_rad" unfolding deg_to_rad_def by (intro rnd_nonneg) simp
  have "rnd pi \<le> rnd 4" using pi_less_4 by (intro rnd_mono) simp
  also have "rnd 4 = 4" using rnd_of_int [of 4] by simp
  finally have "rnd pi / 180 \<le> 1" by simp
  then have "deg_to_rad \<le> rnd 1" unfolding deg_to_rad_def by (rule rnd_mono)
  also have "rnd 1 = 1" using rnd_of_int [of 1] by simp
  finally show "deg_to_rad \<le> 1" .
qed

lemma tiny_sin_sq:
  assumes "0 \<le> e" "e \<le> 1 / 2 ^ 600"
  shows "rnd ((rnd (sin (rnd (rnd (radians_fp e - 0) / 2))))\<^sup>2) = 0"
proof -
  let ?b = "(1::real) / 2 ^ 600"
  have b: "rnd ?b = ?b" by (rule rnd_pow2_neg) simp
  have 1: "0 \<le> radians_fp e" "radians_fp e \<le> ?b"
  proof -
    show "0 \<le> radians_fp e" unfolding radians_fp_def
      using assms(1) deg_to_rad_bounds(1) by (intro rnd_nonneg) simp
    have "e * deg_to_rad \<le> e * 1" using deg_to_rad_bounds(2) assms(1) by (rule mult_left_mono)
    with assms(2) have "e * deg_to_rad \<le> ?b" by simp
    then have "rnd (e * deg_to_rad) \<le> rnd ?b" by (rule rnd_mono)
    then show "radians_fp e \<le> ?b" by (simp only: radians_fp_def b)
  qed
  define d where "d = rnd (radians_fp e - 0)"
  have 2: "0 \<le> d" "d \<le> ?b"
  proof -
    show "0 \<le> d" unfolding d_def using 1(1) by (intro rnd_nonneg) simp
    have "rnd (radians_fp e - 0) \<le> rnd ?b" using 1(2) by (intro rnd_mono) simp
    then show "d \<le> ?b" by (simp only: d_def b)
  qed
  define h where "h = rnd (d / 2)"
  have 3: "0 \<le> h" "h \<le> ?b"
  proof -
    show "0 \<le> h" unfolding h_def using 2(1) by (intro rnd_nonneg) simp
    have "rnd (d / 2) \<le> rnd ?b" using 2 by (intro rnd_mono) simp
    then show "h \<le> ?b" by (simp only: h_def b)
  qed
  define s where "s = rnd (sin h)"
  have 4: "0 \<le> s" "s \<le> ?b"
  proof -
    have "?b \<le> pi" using pi_ge_two by (simp add: field_simps)
    with 3 have "0 \<le> sin h" by (intro sin_ge_zero) simp_all
    then show "0 \<le> s" unfolding s_def by (rule rnd_nonneg)
    have "sin h \<le> h" using 3(1) by (rule sin_x_le_x)
    with 3(2) have "rnd (sin h) \<le> rnd ?b" by (intro rnd_mono) simp
    then show "s \<le> ?b" by (simp only: s_def b)
  qed
  have "s\<^sup>2 \<le> ?b\<^sup>2" using 4 by (intro power_mono) simp_all
  also have "?b\<^sup>2 = 1 / 2 ^ 1200" by (simp add: power_divide flip: power_mult)
  finally have "\<bar>s\<^sup>2\<bar> * scale \<le> (1 / 2 ^ 1200) * scale" by (simp add: mult_right_mono)
  also have "\<dots> < 1 / 2" by (simp add: scale_def)
  finally have "rnd (s\<^sup>2) = 0" by (rule rnd_tiny)
  then show ?thesis by (simp only: s_def h_def d_def)
qed

lemma float_1e_200: "0 < rnd (1 / 10 ^ 200)" "rnd (1 / 10 ^ 200) \<le> 1 / 2 ^ 600"
proof -
  have "rnd (1 / 2 ^ 1000) \<le> rnd (1 / 10 ^ 200)"
    by (intro rnd_mono) (simp add: field_simps)
  moreover have "rnd (1 / 2 ^ 1000) = 1 / 2 ^ 1000" by (rule rnd_pow2_neg) simp
  ultimately have "(1::real) / 2 ^ 1000 \<le> rnd (1 / 10 ^ 200)" by simp
  moreover have "(0::real) < 1 / 2 ^ 1000" by simp
  ultimately show "0 < rnd (1 / 10 ^ 200)" by linarith
  have "rnd (1 / 10 ^ 200) \<le> rnd (1 / 2 ^ 600)"
    by (intro rnd_mono) (simp add: field_simps)
  moreover have "rnd (1 / 2 ^ 600) = 1 / 2 ^ 600" by (rule rnd_pow2_neg) simp
  ultimately show "rnd (1 / 10 ^ 200) \<le> 1 / 2 ^ 600" by simp
qed

text \<open>
  C7 (as amended). The great-circle distance function is symmetric: for all finite
  coordinates \<open>a\<close> and \<open>b\<close>, \<open>distanceKm(a, b) == distanceKm(b, a)\<close> (the two calls
  return the same float, or both raise \<open>ValueError\<close>), and \<open>distanceKm(a, a) == 0\<close> for
  every finite coordinate \<open>a\<close>. A distance of zero does not imply \<open>a == b\<close>.
\<close>

theorem C7_distance_symmetric_zero:
  "haversine_distance_fp lat1 lon1 lat2 lon2 = haversine_distance_fp lat2 lon2 lat1 lon1
   \<and> haversine_distance_fp lat1 lon1 lat1 lon1 = Inr 0"
proof
  show "haversine_distance_fp lat1 lon1 lat2 lon2 = haversine_distance_fp lat2 lon2 lat1 lon1"
    unfolding haversine_distance_fp_def
    by (subst hav_a_fp_sym) (rule refl)
  show "haversine_distance_fp lat1 lon1 lat1 lon1 = Inr 0"
    by (simp add: haversine_distance_fp_def hav_a_fp_same)
qed

text \<open>
  The claim as stated fails: the coordinates \<open>(0, 0)\<close> and \<open>(0, 1e-200)\<close> differ and
  their distance is \<open>0.0\<close>, because the square of the sine of half the longitude
  difference underflows to 0. The float \<open>1e-200\<close> is \<open>rnd (1 / 10 ^ 200)\<close>.
\<close>

theorem C7_zero_iff_equal_counterexample:
  "haversine_distance_fp 0 0 0 (rnd (1 / 10 ^ 200)) = Inr 0
   \<and> ((0::real), (0::real)) \<noteq> (0, rnd (1 / 10 ^ 200))"
proof -
  have r0: "radians_fp 0 = 0" by (simp add: radians_fp_def)
  have "hav_a_fp 0 0 0 (radians_fp (rnd (1 / 10 ^ 200))) = 0"
    unfolding hav_a_fp_def Let_def
    using tiny_sin_sq [OF less_imp_le [OF float_1e_200(1)] float_1e_200(2)]
    by simp
  then have "haversine_distance_fp 0 0 0 (rnd (1 / 10 ^ 200)) = Inr 0"
    by (simp add: haversine_distance_fp_def r0)
  with float_1e_200(1) show ?thesis by simp
qed

text \<open>
  No intermediate result of \<open>haversine_distance_fp\<close> overflows on finite doubles: the
  radian values are at most \<open>huge / 32\<close> in magnitude, their differences at most
  \<open>huge / 16\<close>, the sines, cosines and their products at most 1, \<open>a\<close> lies between
  -1 and 2, and a returned distance between 0 and 25484.
\<close>

lemma rnd_abs_le:
  assumes "\<bar>x\<bar> \<le> b" "rnd b = b"
  shows "\<bar>rnd x\<bar> \<le> b"
proof -
  from assms(1) have "x \<le> b" "- b \<le> x" by linarith+
  then have "rnd x \<le> rnd b" "rnd (- b) \<le> rnd x" by (simp_all add: rnd_mono)
  then show ?thesis by (simp add: rnd_minus assms(2) abs_le_iff)
qed

lemma rnd_huge_part: "rnd (huge / 32) = huge / 32" "rnd (huge / 16) = huge / 16"
proof -
  have "of_int (2 ^ 52) * 2 ^ 2041 / scale = huge / 32" by (simp add: scale_def huge_def)
  with rnd_fix [of 2041 "2 ^ 52"] show "rnd (huge / 32) = huge / 32" by (simp only:) simp
  have "of_int (2 ^ 52) * 2 ^ 2042 / scale = huge / 16" by (simp add: scale_def huge_def)
  with rnd_fix [of 2042 "2 ^ 52"] show "rnd (huge / 16) = huge / 16" by (simp only:) simp
qed

lemma rnd_small_ints: "rnd 1 = 1" "rnd 2 = 2" "rnd 4 = 4" "rnd 25484 = 25484"
  using rnd_of_int [of 1] rnd_of_int [of 2] rnd_of_int [of 4] rnd_of_int [of 25484] by simp_all

lemma deg_to_rad_le: "deg_to_rad \<le> 1 / 32"
proof -
  have "rnd pi \<le> rnd 4" using pi_less_4 by (intro rnd_mono) simp
  then have "rnd pi / 180 \<le> 1 / 32" by (simp add: rnd_small_ints)
  then have "deg_to_rad \<le> rnd (1 / 32)" unfolding deg_to_rad_def by (rule rnd_mono)
  moreover have "rnd (1 / 32) = 1 / 32" using rnd_pow2_neg [of 5] by simp
  ultimately show ?thesis by simp
qed

lemma radians_fp_no_overflow:
  assumes "\<bar>x\<bar> \<le> huge"
  shows "\<bar>radians_fp x\<bar> \<le> huge / 32"
proof -
  have "\<bar>x * deg_to_rad\<bar> = \<bar>x\<bar> * deg_to_rad"
    using deg_to_rad_bounds(1) by (simp add: abs_mult)
  also have "\<dots> \<le> huge * (1 / 32)"
    using assms deg_to_rad_le deg_to_rad_bounds(1) by (intro mult_mono) simp_all
  finally have "\<bar>x * deg_to_rad\<bar> \<le> huge / 32" by simp
  then show ?thesis unfolding radians_fp_def by (rule rnd_abs_le) (rule rnd_huge_part)
qed

lemma difference_no_overflow:
  assumes "\<bar>x\<bar> \<le> huge / 32" "\<bar>y\<bar> \<le> huge / 32"
  shows "\<bar>rnd (y - x)\<bar> \<le> huge / 16" "\<bar>rnd (rnd (y - x) / 2)\<bar> \<le> huge / 32"
proof -
  from assms have "\<bar>y - x\<bar> \<le> huge / 16" by linarith
  then show 1: "\<bar>rnd (y - x)\<bar> \<le> huge / 16" by (rule rnd_abs_le) (rule rnd_huge_part)
  then have "\<bar>rnd (y - x) / 2\<bar> \<le> huge / 32" by simp
  then show "\<bar>rnd (rnd (y - x) / 2)\<bar> \<le> huge / 32" by (rule rnd_abs_le) (rule rnd_huge_part)
qed

lemma rnd_sin_cos_le: "\<bar>rnd (sin x)\<bar> \<le> 1" "\<bar>rnd (cos x)\<bar> \<le> 1"
  by (rule rnd_abs_le, simp, rule rnd_small_ints)+

lemma rnd_sq_bounds:
  assumes "\<bar>s\<bar> \<le> 1"
  shows "0 \<le> rnd (s\<^sup>2)" "rnd (s\<^sup>2) \<le> 1"
proof -
  show "0 \<le> rnd (s\<^sup>2)" by (intro rnd_nonneg) simp
  from assms have "s\<^sup>2 \<le> 1" by (simp add: abs_square_le_1)
  then have "rnd (s\<^sup>2) \<le> rnd 1" by (rule rnd_mono)
  then show "rnd (s\<^sup>2) \<le> 1" by (simp add: rnd_small_ints)
qed

lemma hav_a_fp_bounds: "- 1 \<le> hav_a_fp x l1 y l2" "hav_a_fp x l1 y l2 \<le> 2"
proof -
  define A where "A = rnd ((rnd (sin (rnd (rnd (y - x) / 2))))\<^sup>2)"
  define D where "D = rnd ((rnd (sin (rnd (rnd (l2 - l1) / 2))))\<^sup>2)"
  define C where "C = rnd (rnd (cos x) * rnd (cos y))"
  have A: "0 \<le> A" "A \<le> 1" unfolding A_def by (rule rnd_sq_bounds, rule rnd_sin_cos_le)+
  have D: "0 \<le> D" "D \<le> 1" unfolding D_def by (rule rnd_sq_bounds, rule rnd_sin_cos_le)+
  have "\<bar>rnd (cos x) * rnd (cos y)\<bar> \<le> 1 * 1"
    unfolding abs_mult using rnd_sin_cos_le(2) by (intro mult_mono) simp_all
  then have C: "\<bar>C\<bar> \<le> 1" unfolding C_def by (intro rnd_abs_le) (simp_all add: rnd_small_ints)
  have "\<bar>C * D\<bar> \<le> 1 * 1" unfolding abs_mult using C D by (intro mult_mono) simp_all
  then have P: "\<bar>rnd (C * D)\<bar> \<le> 1" by (intro rnd_abs_le) (simp_all add: rnd_small_ints)
  have e: "hav_a_fp x l1 y l2 = rnd (A + rnd (C * D))"
    by (simp add: hav_a_fp_def A_def D_def C_def)
  have "rnd (- 1) \<le> rnd (A + rnd (C * D))" using A P by (intro rnd_mono) linarith
  then show "- 1 \<le> hav_a_fp x l1 y l2" by (simp add: e rnd_minus rnd_small_ints)
  have "rnd (A + rnd (C * D)) \<le> rnd 2" using A P by (intro rnd_mono) linarith
  then show "hav_a_fp x l1 y l2 \<le> 2" by (simp add: e rnd_small_ints)
qed

lemma haversine_distance_fp_range:
  assumes "haversine_distance_fp lat1 lon1 lat2 lon2 = Inr d"
  shows "0 \<le> d" "d \<le> 25484"
proof -
  define a where "a = hav_a_fp (radians_fp lat1) (radians_fp lon1) (radians_fp lat2) (radians_fp lon2)"
  define q where "q = rnd (sqrt a)"
  from assms have a: "0 \<le> a" and q1: "q \<le> 1"
    and d: "d = rnd (rnd (2 * rnd (arcsin q)) * 6371)"
    by (auto simp: haversine_distance_fp_def Let_def a_def q_def split: if_splits)
  have q0: "0 \<le> q" unfolding q_def using a by (intro rnd_nonneg) simp
  have "0 \<le> arcsin q" using q0 q1 by (intro arcsin_nonneg) simp
  moreover have "arcsin q \<le> 2"
    using arcsin_ubound [of q] q0 q1 pi_less_4 by linarith
  ultimately have s: "0 \<le> rnd (arcsin q)" "rnd (arcsin q) \<le> 2"
    using rnd_mono [of "arcsin q" 2] by (simp_all add: rnd_nonneg rnd_small_ints)
  then have c: "0 \<le> rnd (2 * rnd (arcsin q))" "rnd (2 * rnd (arcsin q)) \<le> 4"
    using rnd_mono [of "2 * rnd (arcsin q)" 4] by (simp_all add: rnd_nonneg rnd_small_ints)
  then show "0 \<le> d" unfolding d by (intro rnd_nonneg) simp
  from c have "rnd (rnd (2 * rnd (arcsin q)) * 6371) \<le> rnd 25484" by (intro rnd_mono) simp
  then show "d \<le> 25484" unfolding d by (simp add: rnd_small_ints)
qed

section \<open>Unreachable targets and nodes outside the vertex range\<close>

lemma relax_dj_reach:
  assumes "reach_inv g s dists pq" "reachable g s u" "dists u \<noteq> None"
    and "set ns \<subseteq> set (adj_of g u)"
  shows "\<exists>dists' pq'. relax_dj u ns (dists, pq) = Inr (dists', pq') \<and> reach_inv g s dists' pq'
           \<and> dists' u \<noteq> None \<and> (\<forall>v. \<not> reachable g s v \<longrightarrow> dists' v = dists v)"
  using assms
proof (induction ns arbitrary: dists pq)
  case Nil
  then show ?case by simp
next
  case (Cons a ns)
  obtain v w where a: "a = (v, w)" by (cases a)
  from Cons.prems have vw: "(v, w) \<in> set (adj_of g u)" and ns: "set ns \<subseteq> set (adj_of g u)"
    by (auto simp: a)
  from Cons.prems(3) obtain du where du: "dists u = Some du" by auto
  from Cons.prems(1) vw obtain dv where dv: "dists v = Some dv"
    unfolding reach_inv_def by fastforce
  have rv: "reachable g s v"
    using Cons.prems(2) vw by (rule reach_edge)
  show ?case
  proof (cases "fadd du w < dv")
    case True
    let ?d = "dists(v \<mapsto> fadd du w)" and ?q = "heappush pq (fadd du w, v)"
    have inv: "reach_inv g s ?d ?q"
      using Cons.prems(1) rv unfolding reach_inv_def by (auto simp: set_heappush)
    have "?d u \<noteq> None" using du by simp
    from Cons.IH [OF inv Cons.prems(2) this ns]
    obtain dists' pq' where r: "relax_dj u ns (?d, ?q) = Inr (dists', pq')" "reach_inv g s dists' pq'"
      "dists' u \<noteq> None" "\<forall>v. \<not> reachable g s v \<longrightarrow> dists' v = ?d v"
      by blast
    have "relax_dj u (a # ns) (dists, pq) = Inr (dists', pq')"
      using True du dv r(1) by (simp add: a)
    moreover have "\<forall>v'. \<not> reachable g s v' \<longrightarrow> dists' v' = dists v'"
      using r(4) rv by auto
    ultimately show ?thesis using r(2,3) by blast
  next
    case False
    from Cons.IH [OF Cons.prems(1,2,3) ns]
    obtain dists' pq' where r: "relax_dj u ns (dists, pq) = Inr (dists', pq')" "reach_inv g s dists' pq'"
      "dists' u \<noteq> None" "\<forall>v. \<not> reachable g s v \<longrightarrow> dists' v = dists v"
      by blast
    have "relax_dj u (a # ns) (dists, pq) = Inr (dists', pq')"
      using False du dv r(1) by (simp add: a)
    then show ?thesis using r(2,3,4) by blast
  qed
qed

lemma reach_inv_pop: "reach_inv g s dists (e # pq) \<Longrightarrow> reach_inv g s dists pq"
  unfolding reach_inv_def by auto

lemma dijkstra_loop_reach:
  assumes "reach_inv g s dists pq"
  shows "\<exists>dfin. dijkstra_loop g (dists, pq, visited) = Inr dfin
           \<and> (\<forall>v. \<not> reachable g s v \<longrightarrow> dfin v = dists v)"
  using assms
proof (induction g "(dists, pq, visited)" arbitrary: dists pq visited rule: dijkstra_loop.induct)
  case (1 g dists pq visited)
  show ?case
  proof (cases pq)
    case Nil
    then show ?thesis by (simp add: dijkstra_loop_Nil)
  next
    case (Cons e pq')
    obtain d u where e: "e = (d, u)" by (cases e)
    have inv': "reach_inv g s dists pq'"
      using "1.prems" Cons by (auto dest: reach_inv_pop)
    show ?thesis
    proof (cases "u \<in> visited")
      case True
      from "1.hyps"(1) [OF Cons e [symmetric] True inv'] show ?thesis
        using Cons e True by (simp add: dijkstra_loop_Cons)
    next
      case False
      have ru: "reachable g s u" "dists u \<noteq> None"
        using "1.prems" Cons e unfolding reach_inv_def by auto
      from relax_dj_reach [OF inv' ru subset_refl]
      obtain dists' pq'' where r: "relax_dj u (adj_of g u) (dists, pq') = Inr (dists', pq'')"
        "reach_inv g s dists' pq''" "\<forall>v. \<not> reachable g s v \<longrightarrow> dists' v = dists v"
        by blast
      from "1.hyps"(2) [OF Cons e [symmetric] False r(1) refl r(2)]
      obtain dfin where "dijkstra_loop g (dists', pq'', insert u visited) = Inr dfin"
        "\<forall>v. \<not> reachable g s v \<longrightarrow> dfin v = dists' v"
        by blast
      then show ?thesis
        using Cons e False r(1,3) by (simp add: dijkstra_loop_Cons)
    qed
  qed
qed

lemma relax_sp_of_dj:
  assumes "relax_dj u ns (dists, pq) = Inr (dists', pq')"
  shows "\<exists>parent'. relax_sp u ns (dists, parent, pq) = Inr (dists', parent', pq')"
  using assms relax_sp_dj [of u ns dists pq parent]
  by (cases "relax_sp u ns (dists, parent, pq)") auto

lemma sp_loop_reach:
  assumes "reach_inv g s dists pq"
  shows "\<exists>dists' parent'. sp_loop g t (dists, parent, pq, visited) = Inr (dists', parent')
           \<and> (\<forall>v. \<not> reachable g s v \<longrightarrow> dists' v = dists v)"
  using assms
proof (induction g t "(dists, parent, pq, visited)" arbitrary: dists parent pq visited
    rule: sp_loop.induct)
  case (1 g t dists parent pq visited)
  show ?case
  proof (cases pq)
    case Nil
    then show ?thesis by (simp add: sp_loop_Nil)
  next
    case (Cons e pq')
    obtain d u where e: "e = (d, u)" by (cases e)
    have inv': "reach_inv g s dists pq'"
      using "1.prems" Cons by (auto dest: reach_inv_pop)
    consider "u = t" | "u \<noteq> t" "u \<in> visited" | "u \<noteq> t" "u \<notin> visited" by blast
    then show ?thesis
    proof cases
      case 1
      then show ?thesis using Cons e by (simp add: sp_loop_Cons)
    next
      case 2
      from "1.hyps"(1) [OF Cons e [symmetric] 2 inv'] show ?thesis
        using Cons e 2 by (simp add: sp_loop_Cons)
    next
      case 3
      have ru: "reachable g s u" "dists u \<noteq> None"
        using "1.prems" Cons e unfolding reach_inv_def by auto
      from relax_dj_reach [OF inv' ru subset_refl]
      obtain dists' pq'' where r: "relax_dj u (adj_of g u) (dists, pq') = Inr (dists', pq'')"
        "reach_inv g s dists' pq''" "\<forall>v. \<not> reachable g s v \<longrightarrow> dists' v = dists v"
        by blast
      from relax_sp_of_dj [OF r(1)] obtain parent'
        where rs: "relax_sp u (adj_of g u) (dists, parent, pq') = Inr (dists', parent', pq'')"
        by blast
      from "1.hyps"(2) [OF Cons e [symmetric] 3 rs refl refl r(2)]
      obtain dfin pfin where "sp_loop g t (dists', parent', pq'', insert u visited) = Inr (dfin, pfin)"
        "\<forall>v. \<not> reachable g s v \<longrightarrow> dfin v = dists' v"
        by blast
      then show ?thesis
        using Cons e 3 rs r(3) by (simp add: sp_loop_Cons)
    qed
  qed
qed

lemma adj_of_in_range:
  assumes "neighbours_in_range g" "(v, w) \<in> set (adj_of g u)"
  shows "0 \<le> v \<and> v < V g"
proof -
  from adj_of_entry [OF assms(2)] obtain ns where "(u, ns) \<in> set (adj g)" "(v, w) \<in> set ns"
    by blast
  with assms(1) show ?thesis
    unfolding neighbours_in_range_def list_all_iff by fastforce
qed

lemma reach_inv_init:
  assumes "neighbours_in_range g"
  shows "reach_inv g s (init_dists g s) [(Fin 0, s)]"
  unfolding reach_inv_def init_dists_def range_dict_def
  using adj_of_in_range [OF assms] by (auto intro: reach_source split: if_splits)

text \<open>
  C3 (as amended). In a graph whose adjacency neighbours are all node indices in
  \<open>[0, V)\<close>, for every source \<open>s\<close> (any integer) and every target \<open>t\<close> in \<open>[0, V)\<close>
  that is not reachable from \<open>s\<close>, \<open>get_shortest_path(s, t)\<close> returns the empty path
  with infinite distance and raises nothing, and \<open>dijkstra(s)\<close> returns a table that
  maps \<open>t\<close> to \<open>float('inf')\<close>.
\<close>

theorem C3_unreachable_target:
  assumes "neighbours_in_range g" and "0 \<le> t" and "t < V g" and "\<not> reachable g s t"
  shows "get_shortest_path g s t = Some (Inr ([], Infty))
         \<and> (\<exists>dists. dijkstra g s = Inr dists \<and> dists t = Some Infty)"
proof -
  have ts: "t \<noteq> s" using assms(4) reach_source by blast
  then have t0: "init_dists g s t = Some Infty"
    using assms(2,3) by (simp add: init_dists_def range_dict_def)
  note inv = reach_inv_init [OF assms(1), of s]
  from sp_loop_reach [OF inv, of t "range_dict (V g) None" "{}"] assms(4) t0
  obtain dists' parent' where
    "sp_loop g t (init_dists g s, range_dict (V g) None, [(Fin 0, s)], {}) = Inr (dists', parent')"
    "dists' t = Some Infty"
    by auto
  then have 1: "get_shortest_path g s t = Some (Inr ([], Infty))"
    by (simp add: get_shortest_path_def init_dists_def Let_def)
  from dijkstra_loop_reach [OF inv, of "{}"] assms(4) t0
  obtain dfin where "dijkstra_loop g (init_dists g s, [(Fin 0, s)], {}) = Inr dfin"
    "dfin t = Some Infty"
    by auto
  then have 2: "\<exists>dists. dijkstra g s = Inr dists \<and> dists t = Some Infty"
    by (simp add: dijkstra_def init_dists_def Let_def)
  from 1 2 show ?thesis ..
qed

lemma adj_demo:
  "adj demo = [(0, [(1, 10), (2, 5)]), (1, [(3, 1), (4, 7)]), (2, [(1, 3), (3, 9)]),
     (3, [(4, 2)]), (4, [(5, 4)]), (5, [])]"
  by code_simp

lemma V_demo: "V demo = 6"
  by code_simp

lemma neighbours_in_range_demo: "neighbours_in_range demo"
  by (simp add: neighbours_in_range_def adj_demo V_demo)

lemma reachable_demo_5: "reachable demo 5 v \<Longrightarrow> v = 5"
  by (induction rule: reachable.induct) (simp_all add: adj_of_def adj_demo)

theorem C3_unreachable_target_witness:
  "neighbours_in_range demo \<and> \<not> reachable demo 5 0
   \<and> get_shortest_path demo 5 0 = Some (Inr ([], Infty))
   \<and> (\<exists>dists. dijkstra demo 5 = Inr dists \<and> dists 0 = Some Infty)"
proof -
  have n: "\<not> reachable demo 5 0"
    using reachable_demo_5 [of 0] by auto
  have "(0::int) \<le> 0" "0 < V demo"
    by (simp_all add: V_demo)
  from C3_unreachable_target [OF neighbours_in_range_demo this n] n neighbours_in_range_demo
  show ?thesis by simp
qed

lemma walk_None: "walk parent None path = Some (Inr path)"
  by (subst walk.simps) simp

lemma walk_Some:
  "walk parent (Some c) path =
     (case parent c of None \<Rightarrow> Some (Inl (KeyError c)) | Some p \<Rightarrow> walk parent p (path @ [c]))"
  by (subst walk.simps) simp

lemmas run_simps = get_shortest_path_def dijkstra_def Let_def range_dict_def sp_loop_Cons sp_loop_Nil
  dijkstra_loop_Cons dijkstra_loop_Nil adj_of_def heappush_def walk_None walk_Some

lemma adj_negative_neighbour: "adj (add_edge (Graph 0) 1 (- 1) 1) = [(1, [(- 1, 1)]), (- 1, [])]"
  "V (add_edge (Graph 0) 1 (- 1) 1) = 2"
  by code_simp+

lemma reachable_negative_neighbour:
  "reachable (add_edge (Graph 0) 1 (- 1) 1) 1 v \<Longrightarrow> v = 1 \<or> v = - 1"
  by (induction rule: reachable.induct) (auto simp: adj_of_def adj_negative_neighbour split: if_splits)

text \<open>
  The claim as stated fails for a graph that stores a neighbour outside \<open>[0, V)\<close>:
  after \<open>g.add_edge(1, -1, 1.0)\<close> on the empty graph, \<open>V\<close> is 2, the target 0 is in
  range and not reachable from 1, and both \<open>g.get_shortest_path(1, 0)\<close> and
  \<open>g.dijkstra(1)\<close> raise \<open>KeyError\<close> when they read \<open>dist[-1]\<close>.
\<close>

theorem C3_negative_neighbour_counterexample:
  "0 \<le> (0::int) \<and> 0 < V (add_edge (Graph 0) 1 (- 1) 1)
   \<and> \<not> reachable (add_edge (Graph 0) 1 (- 1) 1) 1 0
   \<and> get_shortest_path (add_edge (Graph 0) 1 (- 1) 1) 1 0 = Some (Inl (KeyError (- 1)))
   \<and> dijkstra (add_edge (Graph 0) 1 (- 1) 1) 1 = Inl (KeyError (- 1))"
proof -
  have "\<not> reachable (add_edge (Graph 0) 1 (- 1) 1) 1 0"
    using reachable_negative_neighbour [of 0] by auto
  then show ?thesis
    by (simp add: run_simps adj_negative_neighbour)
qed

lemma relax_sp_dom:
  "relax_sp u ns (dists, parent, pq) = Inr (dists', parent', pq') \<Longrightarrow>
     dists' k = None \<longleftrightarrow> dists k = None"
proof (induction ns arbitrary: dists parent pq)
  case Nil
  then show ?case by simp
next
  case (Cons a ns)
  obtain v w where a: "a = (v, w)" by (cases a)
  from Cons.prems obtain du dv where d: "dists u = Some du" "dists v = Some dv"
    by (auto simp: a split: option.splits)
  show ?case
  proof (cases "fadd du w < dv")
    case True
    with Cons.prems d have "relax_sp u ns (dists(v \<mapsto> fadd du w), parent(v \<mapsto> Some u),
        heappush pq (fadd du w, v)) = Inr (dists', parent', pq')"
      by (simp add: a)
    from Cons.IH [OF this] d show ?thesis by (auto split: if_splits)
  next
    case False
    with Cons.prems d have "relax_sp u ns (dists, parent, pq) = Inr (dists', parent', pq')"
      by (simp add: a)
    from Cons.IH [OF this] show ?thesis .
  qed
qed

lemma relax_sp_error:
  "relax_sp u ns (dists, parent, pq) = Inl e \<Longrightarrow> \<exists>k. e = KeyError k \<and> dists k = None"
proof (induction ns arbitrary: dists parent pq)
  case Nil
  then show ?case by simp
next
  case (Cons a ns)
  obtain v w where a: "a = (v, w)" by (cases a)
  show ?case
  proof (cases "dists u = None \<or> dists v = None")
    case True
    with Cons.prems show ?thesis by (auto simp: a split: option.splits)
  next
    case False
    then obtain du dv where d: "dists u = Some du" "dists v = Some dv" by auto
    show ?thesis
    proof (cases "fadd du w < dv")
      case True
      with Cons.prems d have "relax_sp u ns (dists(v \<mapsto> fadd du w), parent(v \<mapsto> Some u),
          heappush pq (fadd du w, v)) = Inl e"
        by (simp add: a)
      from Cons.IH [OF this] d show ?thesis by (auto split: if_splits)
    next
      case False
      with Cons.prems d have "relax_sp u ns (dists, parent, pq) = Inl e"
        by (simp add: a)
      from Cons.IH [OF this] show ?thesis .
    qed
  qed
qed

lemma sp_loop_dom:
  "sp_loop g t (dists, parent, pq, visited) = Inr (dists', parent') \<Longrightarrow>
     dists' k = None \<longleftrightarrow> dists k = None"
proof (induction g t "(dists, parent, pq, visited)" arbitrary: dists parent pq visited
    rule: sp_loop.induct)
  case (1 g t dists parent pq visited)
  show ?case
  proof (cases pq)
    case Nil
    with "1.prems" show ?thesis by (simp add: sp_loop_Nil)
  next
    case (Cons e pq')
    obtain d u where e: "e = (d, u)" by (cases e)
    consider "u = t" | "u \<noteq> t" "u \<in> visited" | "u \<noteq> t" "u \<notin> visited" by blast
    then show ?thesis
    proof cases
      case 1
      with "1.prems" Cons e show ?thesis by (simp add: sp_loop_Cons)
    next
      case 2
      with "1.prems" Cons e have "sp_loop g t (dists, parent, pq', visited) = Inr (dists', parent')"
        by (simp add: sp_loop_Cons)
      from "1.hyps"(1) [OF Cons e [symmetric] 2 this] show ?thesis .
    next
      case 3
      with "1.prems" Cons e obtain d1 p1 q1 where
        r: "relax_sp u (adj_of g u) (dists, parent, pq') = Inr (d1, p1, q1)"
        and l: "sp_loop g t (d1, p1, q1, insert u visited) = Inr (dists', parent')"
        by (auto simp: sp_loop_Cons split: sum.splits)
      from "1.hyps"(2) [OF Cons e [symmetric] 3 r refl refl l] relax_sp_dom [OF r]
      show ?thesis by simp
    qed
  qed
qed

lemma sp_loop_error:
  "sp_loop g t (dists, parent, pq, visited) = Inl e \<Longrightarrow> \<exists>k. e = KeyError k \<and> dists k = None"
proof (induction g t "(dists, parent, pq, visited)" arbitrary: dists parent pq visited
    rule: sp_loop.induct)
  case (1 g t dists parent pq visited)
  show ?case
  proof (cases pq)
    case Nil
    with "1.prems" show ?thesis by (simp add: sp_loop_Nil)
  next
    case (Cons e' pq')
    obtain d u where e: "e' = (d, u)" by (cases e')
    consider "u = t" | "u \<noteq> t" "u \<in> visited" | "u \<noteq> t" "u \<notin> visited" by blast
    then show ?thesis
    proof cases
      case 1
      with "1.prems" Cons e show ?thesis by (simp add: sp_loop_Cons)
    next
      case 2
      with "1.prems" Cons e have "sp_loop g t (dists, parent, pq', visited) = Inl e"
        by (simp add: sp_loop_Cons)
      from "1.hyps"(1) [OF Cons e [symmetric] 2 this] show ?thesis .
    next
      case 3
      show ?thesis
      proof (cases "relax_sp u (adj_of g u) (dists, parent, pq')")
        case (Inl e1)
        with "1.prems" Cons e 3 have "e1 = e" by (simp add: sp_loop_Cons)
        with Inl relax_sp_error show ?thesis by blast
      next
        case (Inr st)
        obtain d1 p1 q1 where st: "st = (d1, p1, q1)" by (cases st)
        from Inr st "1.prems" Cons e 3
        have l: "sp_loop g t (d1, p1, q1, insert u visited) = Inl e"
          by (simp add: sp_loop_Cons)
        from "1.hyps"(2) [OF Cons e [symmetric] 3 Inr [unfolded st] refl refl l]
        obtain k where "e = KeyError k" "d1 k = None" by blast
        moreover have "d1 k = None \<longleftrightarrow> dists k = None"
          using Inr st relax_sp_dom by blast
        ultimately show ?thesis by blast
      qed
    qed
  qed
qed

lemma walk_missing: "parent c = None \<Longrightarrow> walk parent (Some c) path = Some (Inl (KeyError c))"
  by (subst walk.simps) simp

text \<open>
  C10 (as amended). \<open>get_shortest_path\<close> is partial in both arguments. For every
  graph and every target outside \<open>[0, V)\<close> other than the source the call raises
  \<open>KeyError\<close>, for a key outside \<open>[0, V)\<close> that is not the source (the target itself at
  the final \<open>dist[target]\<close> lookup, unless a relaxation met a missing key before). A
  source outside \<open>[0, V)\<close> has an entry in \<open>dist\<close> but none in \<open>parent\<close>: with the
  target equal to such a source the loop leaves at once and the walk along the parent
  pointers raises \<open>KeyError\<close> for the source.
\<close>

theorem C10_out_of_range:
  "(\<not> (0 \<le> target \<and> target < V g) \<and> target \<noteq> source \<longrightarrow>
      (\<exists>k. get_shortest_path g source target = Some (Inl (KeyError k))
           \<and> \<not> (0 \<le> k \<and> k < V g) \<and> k \<noteq> source))
   \<and> (\<not> (0 \<le> source \<and> source < V g) \<longrightarrow>
      get_shortest_path g source source = Some (Inl (KeyError source)))"
proof (intro conjI impI)
  assume t: "\<not> (0 \<le> target \<and> target < V g) \<and> target \<noteq> source"
  let ?st = "(init_dists g source, range_dict (V g) None, [(Fin 0, source)], {})"
  have none: "init_dists g source k = None \<longleftrightarrow> \<not> (0 \<le> k \<and> k < V g) \<and> k \<noteq> source" for k
    by (simp add: init_dists_def range_dict_def)
  show "\<exists>k. get_shortest_path g source target = Some (Inl (KeyError k))
           \<and> \<not> (0 \<le> k \<and> k < V g) \<and> k \<noteq> source"
  proof (cases "sp_loop g target ?st")
    case (Inl e)
    from sp_loop_error [OF Inl] obtain k where "e = KeyError k" "init_dists g source k = None"
      by blast
    with Inl none show ?thesis
      by (auto simp: get_shortest_path_def init_dists_def Let_def)
  next
    case (Inr r)
    obtain dists' parent' where r: "r = (dists', parent')" by (cases r)
    from sp_loop_dom [OF Inr [unfolded r]] none [of target] t have "dists' target = None"
      by blast
    with Inr r t show ?thesis
      by (auto simp: get_shortest_path_def init_dists_def Let_def)
  qed
next
  assume s: "\<not> (0 \<le> source \<and> source < V g)"
  then have "range_dict (V g) (None :: int option) source = None"
    by (simp add: range_dict_def)
  then show "get_shortest_path g source source = Some (Inl (KeyError source))"
    by (simp add: get_shortest_path_def Let_def sp_loop_Cons walk_missing)
qed

theorem C10_out_of_range_witness:
  "(\<exists>k. get_shortest_path (Graph 1) 0 7 = Some (Inl (KeyError k)) \<and> \<not> (0 \<le> k \<and> k < 1) \<and> k \<noteq> 0)
   \<and> get_shortest_path (Graph 0) 3 3 = Some (Inl (KeyError 3))"
  using C10_out_of_range [of 7 "Graph 1" 0] C10_out_of_range [of 0 "Graph 0" 3]
  by (simp add: Graph_def)

text \<open>
  The claim as stated fails twice at \<open>Graph(1).get_shortest_path(5, 5)\<close>: the target 5
  is outside \<open>[0, 1)\<close> and no relaxation reaches it, yet the final \<open>dist[target]\<close>
  lookup finds the entry 0; and the source 5 is not accepted, the call raises
  \<open>KeyError\<close>.
\<close>

theorem C10_source_outside_range_counterexample:
  "\<not> (0 \<le> (5::int) \<and> 5 < V (Graph 1))
   \<and> sp_loop (Graph 1) 5 (init_dists (Graph 1) 5, range_dict (V (Graph 1)) None, [(Fin 0, 5)], {})
       = Inr (init_dists (Graph 1) 5, range_dict (V (Graph 1)) None)
   \<and> init_dists (Graph 1) 5 5 = Some (Fin 0)
   \<and> get_shortest_path (Graph 1) 5 5 = Some (Inl (KeyError 5))"
  by (simp add: sp_loop_Cons init_dists_def range_dict_def Graph_def get_shortest_path_def
      walk_missing Let_def)

lemma adj_negative_source: "adj (add_edge (Graph 0) (- 1) 0 1) = [(- 1, [(0, 1)]), (0, [])]"
  "V (add_edge (Graph 0) (- 1) 0 1) = 1"
  by code_simp+

text \<open>
  A source outside the range fails with a reachable target in the range too: after
  \<open>g.add_edge(-1, 0, 1.0)\<close> on the empty graph, \<open>g.get_shortest_path(-1, 0)\<close> raises
  \<open>KeyError\<close> for the source when the walk reaches \<open>parent[-1]\<close>.
\<close>

lemma get_shortest_path_negative_source:
  "get_shortest_path (add_edge (Graph 0) (- 1) 0 1) (- 1) 0 = Some (Inl (KeyError (- 1)))"
  by (simp add: run_simps adj_negative_source)

section \<open>Invariants of the relaxation loops\<close>

lemma settles_refl: "settles vis dists dists"
  by (simp add: settles_def)

lemma settles_vis: "settles vis d1 d2 \<Longrightarrow> v \<in> vis \<Longrightarrow> d2 v = d1 v"
  by (simp add: settles_def)

lemma settles_None: "settles vis d1 d2 \<Longrightarrow> d2 v = None \<longleftrightarrow> d1 v = None"
  by (simp add: settles_def)

lemma settles_le: "settles vis d1 d2 \<Longrightarrow> d1 v = Some d \<Longrightarrow> \<exists>d'. d2 v = Some d' \<and> d' \<le> d"
  by (simp add: settles_def)

lemma settles_trans:
  assumes "settles vis d1 d2" "settles vis d2 d3"
  shows "settles vis d1 d3"
proof -
  have "d3 v = d1 v" if "v \<in> vis" for v
    using settles_vis [OF assms(1) that] settles_vis [OF assms(2) that] by simp
  moreover have "d3 v = None \<longleftrightarrow> d1 v = None" for v
    using settles_None [OF assms(1), of v] settles_None [OF assms(2), of v] by simp
  moreover have "\<exists>d'. d3 v = Some d' \<and> d' \<le> d" if "d1 v = Some d" for v d
  proof -
    from settles_le [OF assms(1) that] obtain e where e: "d2 v = Some e" "e \<le> d" by blast
    from settles_le [OF assms(2) e(1)] obtain e' where "d3 v = Some e'" "e' \<le> e" by blast
    with e(2) show ?thesis by auto
  qed
  ultimately show ?thesis unfolding settles_def by blast
qed

lemma settles_mono: "settles vis d1 d2 \<Longrightarrow> vis' \<subseteq> vis \<Longrightarrow> settles vis' d1 d2"
  unfolding settles_def by blast

lemma settles_upd:
  "v \<notin> vis \<Longrightarrow> dists v = Some dv \<Longrightarrow> z \<le> dv \<Longrightarrow> settles vis dists (dists(v \<mapsto> z))"
  unfolding settles_def by auto

lemma floats_okD: "floats_ok dists \<Longrightarrow> dists v = Some d \<Longrightarrow> is_double d \<and> d \<noteq> NInfty"
  by (simp add: floats_ok_def)

lemma floats_ok_upd: "floats_ok dists \<Longrightarrow> is_double z \<Longrightarrow> z \<noteq> NInfty \<Longrightarrow> floats_ok (dists(v \<mapsto> z))"
  by (simp add: floats_ok_def)

lemma mid_invI:
  assumes "dists u = Some (Fin x)" "u \<in> vis" "sorted pq"
    and "\<And>e. e \<in> set pq \<Longrightarrow> key_ok dists e \<and> Fin x \<le> fst e"
    and "\<And>v y. v \<notin> vis \<Longrightarrow> dists v = Some (Fin y) \<Longrightarrow> (Fin y, v) \<in> set pq"
    and "\<And>v. v \<in> vis \<Longrightarrow> \<exists>y. dists v = Some (Fin y) \<and> y \<le> x"
    and "floats_ok dists"
  shows "mid_inv u x vis dists pq"
  unfolding mid_inv_def using assms by blast

lemma mid_inv_source: "mid_inv u x vis dists pq \<Longrightarrow> dists u = Some (Fin x) \<and> u \<in> vis \<and> sorted pq"
  by (simp add: mid_inv_def)

lemma mid_inv_key: "mid_inv u x vis dists pq \<Longrightarrow> e \<in> set pq \<Longrightarrow> key_ok dists e \<and> Fin x \<le> fst e"
  by (simp add: mid_inv_def)

lemma mid_inv_queued:
  "mid_inv u x vis dists pq \<Longrightarrow> v \<notin> vis \<Longrightarrow> dists v = Some (Fin y) \<Longrightarrow> (Fin y, v) \<in> set pq"
  by (simp add: mid_inv_def)

lemma mid_inv_visited:
  "mid_inv u x vis dists pq \<Longrightarrow> v \<in> vis \<Longrightarrow> \<exists>y. dists v = Some (Fin y) \<and> y \<le> x"
  by (simp add: mid_inv_def)

lemma mid_inv_floats: "mid_inv u x vis dists pq \<Longrightarrow> floats_ok dists"
  by (simp add: mid_inv_def)

lemma dj_invI:
  assumes "sorted pq"
    and "\<And>e. e \<in> set pq \<Longrightarrow> key_ok dists e"
    and "\<And>v y. v \<notin> visited \<Longrightarrow> dists v = Some (Fin y) \<Longrightarrow> (Fin y, v) \<in> set pq"
    and "\<And>v. v \<in> visited \<Longrightarrow> \<exists>y. dists v = Some (Fin y) \<and> (\<forall>e \<in> set pq. Fin y \<le> fst e)"
    and "\<And>u v w. u \<in> visited \<Longrightarrow> (v, w) \<in> set (adj_of g u) \<Longrightarrow>
           \<exists>du dv. dists u = Some du \<and> dists v = Some dv \<and> dv \<le> fadd du w"
    and "\<And>u v w. (v, w) \<in> set (adj_of g u) \<Longrightarrow> dists v \<noteq> None \<and> 0 \<le> w"
    and "floats_ok dists"
  shows "dj_inv g dists pq visited"
  unfolding dj_inv_def using assms by blast

lemma dj_inv_sorted: "dj_inv g dists pq visited \<Longrightarrow> sorted pq"
  by (simp add: dj_inv_def)

lemma dj_inv_key: "dj_inv g dists pq visited \<Longrightarrow> e \<in> set pq \<Longrightarrow> key_ok dists e"
  by (simp add: dj_inv_def)

lemma dj_inv_queued:
  "dj_inv g dists pq visited \<Longrightarrow> v \<notin> visited \<Longrightarrow> dists v = Some (Fin y) \<Longrightarrow> (Fin y, v) \<in> set pq"
  by (simp add: dj_inv_def)

lemma dj_inv_visited:
  "dj_inv g dists pq visited \<Longrightarrow> v \<in> visited \<Longrightarrow>
     \<exists>y. dists v = Some (Fin y) \<and> (\<forall>e \<in> set pq. Fin y \<le> fst e)"
  by (simp add: dj_inv_def)

lemma dj_inv_closed:
  "dj_inv g dists pq visited \<Longrightarrow> u \<in> visited \<Longrightarrow> (v, w) \<in> set (adj_of g u) \<Longrightarrow>
     \<exists>du dv. dists u = Some du \<and> dists v = Some dv \<and> dv \<le> fadd du w"
  unfolding dj_inv_def by blast

lemma dj_inv_edges:
  "dj_inv g dists pq visited \<Longrightarrow> (v, w) \<in> set (adj_of g u) \<Longrightarrow> dists v \<noteq> None \<and> 0 \<le> w"
  unfolding dj_inv_def by blast

lemma dj_inv_floats: "dj_inv g dists pq visited \<Longrightarrow> floats_ok dists"
  by (simp add: dj_inv_def)

lemma relaxed_value:
  assumes "is_double (Fin x)" "0 \<le> w" "fadd (Fin x) w < dv"
  shows "\<exists>z. fadd (Fin x) w = Fin z \<and> x \<le> z \<and> is_double (Fin z)"
proof -
  from fadd_ge [OF assms(1,2)] have ge: "Fin x \<le> fadd (Fin x) w" .
  show ?thesis
  proof (cases "fadd (Fin x) w")
    case NInfty
    with ge show ?thesis by simp
  next
    case (Fin z)
    with ge fadd_double [of "Fin x" w] show ?thesis by simp
  next
    case Infty
    with assms(3) show ?thesis by simp
  qed
qed

lemma mid_step:
  assumes m: "mid_inv u x vis dists pq" and z: "x \<le> z" "is_double (Fin z)"
    and dv: "dists v = Some dv" and lt: "Fin z < dv"
  shows "v \<notin> vis" and "mid_inv u x vis (dists(v \<mapsto> Fin z)) (heappush pq (Fin z, v))"
proof -
  show nv: "v \<notin> vis"
  proof
    assume "v \<in> vis"
    from mid_inv_visited [OF m this] obtain y where y: "dists v = Some (Fin y)" "y \<le> x"
      by blast
    with dv have "dv = Fin y" by simp
    with lt have "z < y" by simp
    with y(2) z(1) show False by linarith
  qed
  let ?d = "dists(v \<mapsto> Fin z)" and ?q = "heappush pq (Fin z, v)"
  from mid_inv_source [OF m] have src: "dists u = Some (Fin x)" "u \<in> vis" "sorted pq"
    by simp_all
  with nv have uv: "u \<noteq> v" by blast
  show "mid_inv u x vis ?d ?q"
  proof (rule mid_invI)
    show "?d u = Some (Fin x)" using src uv by simp
    show "u \<in> vis" by fact
    show "sorted ?q" using src by (simp add: heappush_def sorted_insort)
    show "floats_ok ?d" using mid_inv_floats [OF m] z(2) by (intro floats_ok_upd) simp_all
  next
    fix e assume "e \<in> set ?q"
    then consider "e = (Fin z, v)" | "e \<in> set pq" by (auto simp: set_heappush)
    then show "key_ok ?d e \<and> Fin x \<le> fst e"
    proof cases
      case 1
      then show ?thesis using z(1) by (simp add: key_ok_def)
    next
      case 2
      from mid_inv_key [OF m 2] have k: "key_ok dists e" and x: "Fin x \<le> fst e"
        by simp_all
      from k obtain kx y where ky: "fst e = Fin kx" "dists (snd e) = Some (Fin y)" "y \<le> kx"
        unfolding key_ok_def by blast
      have "key_ok ?d e"
      proof (cases "snd e = v")
        case True
        with ky dv have "dv = Fin y" by simp
        with lt ky have "z \<le> kx" by simp
        with True ky show ?thesis by (simp add: key_ok_def)
      next
        case False
        with ky show ?thesis by (simp add: key_ok_def)
      qed
      with x show ?thesis by simp
    qed
  next
    fix v' y assume a: "v' \<notin> vis" "?d v' = Some (Fin y)"
    show "(Fin y, v') \<in> set ?q"
    proof (cases "v' = v")
      case True
      with a show ?thesis by (simp add: set_heappush)
    next
      case False
      with a have "dists v' = Some (Fin y)" by simp
      from mid_inv_queued [OF m a(1) this] show ?thesis by (simp add: set_heappush)
    qed
  next
    fix v' assume a: "v' \<in> vis"
    with nv have "v' \<noteq> v" by blast
    with mid_inv_visited [OF m a] show "\<exists>y. ?d v' = Some (Fin y) \<and> y \<le> x" by simp
  qed
qed

lemma relax_dj_mid:
  assumes "mid_inv u x vis dists pq"
    and "\<forall>v w. (v, w) \<in> set ns \<longrightarrow> dists v \<noteq> None \<and> 0 \<le> w"
  shows "\<exists>dists' pq'. relax_dj u ns (dists, pq) = Inr (dists', pq') \<and> mid_inv u x vis dists' pq'
           \<and> settles vis dists dists'
           \<and> (\<forall>v w. (v, w) \<in> set ns \<longrightarrow> (\<exists>dv. dists' v = Some dv \<and> dv \<le> fadd (Fin x) w))"
  using assms
proof (induction ns arbitrary: dists pq)
  case Nil
  then show ?case by (simp add: settles_refl)
next
  case (Cons a ns)
  obtain v w where a: "a = (v, w)" by (cases a)
  from mid_inv_source [OF Cons.prems(1)] have du: "dists u = Some (Fin x)" by simp
  from floats_okD [OF mid_inv_floats [OF Cons.prems(1)] du] have dx: "is_double (Fin x)" by simp
  from Cons.prems(2) obtain dv where dv: "dists v = Some dv" and w: "0 \<le> w"
    by (auto simp: a)
  have rest: "\<forall>v w. (v, w) \<in> set ns \<longrightarrow> dists v \<noteq> None \<and> 0 \<le> w"
    using Cons.prems(2) by simp
  show ?case
  proof (cases "fadd (Fin x) w < dv")
    case True
    from relaxed_value [OF dx w True] obtain z where
      z: "fadd (Fin x) w = Fin z" "x \<le> z" "is_double (Fin z)"
      by blast
    let ?d = "dists(v \<mapsto> Fin z)" and ?q = "heappush pq (Fin z, v)"
    from True z(1) have lt: "Fin z < dv" by simp
    from mid_step [OF Cons.prems(1) z(2,3) dv lt]
    have nv: "v \<notin> vis" and m': "mid_inv u x vis ?d ?q" .
    have rest': "\<forall>v' w'. (v', w') \<in> set ns \<longrightarrow> ?d v' \<noteq> None \<and> 0 \<le> w'"
      using rest by auto
    from Cons.IH [OF m' rest']
    obtain dists' pq' where r: "relax_dj u ns (?d, ?q) = Inr (dists', pq')"
      "mid_inv u x vis dists' pq'" "settles vis ?d dists'"
      "\<forall>v w. (v, w) \<in> set ns \<longrightarrow> (\<exists>dv. dists' v = Some dv \<and> dv \<le> fadd (Fin x) w)"
      by blast
    have e: "relax_dj u (a # ns) (dists, pq) = Inr (dists', pq')"
      using True du dv r(1) z(1) by (simp add: a)
    have "Fin z \<le> dv" using lt by simp
    from settles_upd [of v vis dists dv "Fin z", OF nv dv this]
    have s: "settles vis dists dists'"
      using settles_trans r(3) by blast
    have dz: "?d v = Some (Fin z)" by simp
    have "\<exists>dv'. dists' v = Some dv' \<and> dv' \<le> fadd (Fin x) w"
      unfolding z(1) using settles_le [OF r(3) dz] .
    with r(4) have "\<forall>v' w'. (v', w') \<in> set (a # ns) \<longrightarrow>
        (\<exists>dv. dists' v' = Some dv \<and> dv \<le> fadd (Fin x) w')"
      by (auto simp: a)
    with e r(2) s show ?thesis by blast
  next
    case False
    from Cons.IH [OF Cons.prems(1) rest]
    obtain dists' pq' where r: "relax_dj u ns (dists, pq) = Inr (dists', pq')"
      "mid_inv u x vis dists' pq'" "settles vis dists dists'"
      "\<forall>v w. (v, w) \<in> set ns \<longrightarrow> (\<exists>dv. dists' v = Some dv \<and> dv \<le> fadd (Fin x) w)"
      by blast
    have e: "relax_dj u (a # ns) (dists, pq) = Inr (dists', pq')"
      using False du dv r(1) by (simp add: a)
    from False have "dv \<le> fadd (Fin x) w" by simp
    moreover from settles_le [OF r(3) dv] obtain dv' where "dists' v = Some dv'" "dv' \<le> dv"
      by blast
    ultimately have "\<exists>dv'. dists' v = Some dv' \<and> dv' \<le> fadd (Fin x) w" by auto
    with r(4) have "\<forall>v' w'. (v', w') \<in> set (a # ns) \<longrightarrow>
        (\<exists>dv. dists' v' = Some dv \<and> dv \<le> fadd (Fin x) w')"
      by (auto simp: a)
    with e r(2,3) show ?thesis by blast
  qed
qed

lemma dj_inv_pop:
  assumes inv: "dj_inv g dists (e # pq') visited" and v: "snd e \<in> visited"
  shows "dj_inv g dists pq' visited"
proof (rule dj_invI)
  show "sorted pq'" using dj_inv_sorted [OF inv] by simp
  show "floats_ok dists" using dj_inv_floats [OF inv] .
next
  fix e' assume "e' \<in> set pq'"
  then show "key_ok dists e'" using dj_inv_key [OF inv, of e'] by simp
next
  fix v' y assume a: "v' \<notin> visited" "dists v' = Some (Fin y)"
  from dj_inv_queued [OF inv a] have "(Fin y, v') \<in> set (e # pq')" .
  moreover have "(Fin y, v') \<noteq> e" using a(1) v by auto
  ultimately show "(Fin y, v') \<in> set pq'" by simp
next
  fix v' assume "v' \<in> visited"
  from dj_inv_visited [OF inv this]
  show "\<exists>y. dists v' = Some (Fin y) \<and> (\<forall>e \<in> set pq'. Fin y \<le> fst e)" by auto
next
  fix u v' w assume "u \<in> visited" "(v', w) \<in> set (adj_of g u)"
  then show "\<exists>du dv. dists u = Some du \<and> dists v' = Some dv \<and> dv \<le> fadd du w"
    by (rule dj_inv_closed [OF inv])
next
  fix u v' w assume "(v', w) \<in> set (adj_of g u)"
  then show "dists v' \<noteq> None \<and> 0 \<le> w" by (rule dj_inv_edges [OF inv])
qed

lemma dj_inv_start:
  assumes inv: "dj_inv g dists ((d, u) # pq') visited" and u: "u \<notin> visited"
  shows "\<exists>x. d = Fin x \<and> mid_inv u x (insert u visited) dists pq'"
proof -
  from dj_inv_key [OF inv, of "(d, u)"] have k: "key_ok dists (d, u)" by simp
  then obtain x y where xy: "d = Fin x" "dists u = Some (Fin y)" "y \<le> x"
    unfolding key_ok_def by auto
  from dj_inv_queued [OF inv u xy(2)] have "(Fin y, u) \<in> set ((d, u) # pq')" .
  moreover from dj_inv_sorted [OF inv] have srt: "sorted ((d, u) # pq')" .
  ultimately have "(d, u) \<le> (Fin y, u)" by auto
  with xy have "x \<le> y" by auto
  with xy have du: "dists u = Some (Fin x)" by simp
  have "mid_inv u x (insert u visited) dists pq'"
  proof (rule mid_invI)
    show "dists u = Some (Fin x)" by fact
    show "u \<in> insert u visited" by simp
    show "sorted pq'" using srt by simp
    show "floats_ok dists" using dj_inv_floats [OF inv] .
  next
    fix e assume e: "e \<in> set pq'"
    with srt have "(d, u) \<le> e" by auto
    then have "d \<le> fst e" by (cases e) auto
    moreover have "key_ok dists e" using dj_inv_key [OF inv, of e] e by simp
    ultimately show "key_ok dists e \<and> Fin x \<le> fst e" using xy by simp
  next
    fix v y' assume a: "v \<notin> insert u visited" "dists v = Some (Fin y')"
    then have "v \<notin> visited" by simp
    from dj_inv_queued [OF inv this a(2)] a(1) show "(Fin y', v) \<in> set pq'" by auto
  next
    fix v assume a: "v \<in> insert u visited"
    show "\<exists>y. dists v = Some (Fin y) \<and> y \<le> x"
    proof (cases "v = u")
      case True
      with du show ?thesis by simp
    next
      case False
      with a have "v \<in> visited" by simp
      from dj_inv_visited [OF inv this] obtain y' where
        "dists v = Some (Fin y')" "\<forall>e \<in> set ((d, u) # pq'). Fin y' \<le> fst e"
        by blast
      with xy show ?thesis by simp
    qed
  qed
  with xy show ?thesis by blast
qed

lemma dj_inv_finish:
  assumes inv: "dj_inv g dists pq0 visited"
    and m: "mid_inv u x (insert u visited) dists' pq"
    and s: "settles (insert u visited) dists dists'"
    and n: "\<forall>v w. (v, w) \<in> set (adj_of g u) \<longrightarrow> (\<exists>dv. dists' v = Some dv \<and> dv \<le> fadd (Fin x) w)"
  shows "dj_inv g dists' pq (insert u visited)"
proof (rule dj_invI)
  show "sorted pq" using mid_inv_source [OF m] by simp
  show "floats_ok dists'" using mid_inv_floats [OF m] .
next
  fix e assume "e \<in> set pq"
  from mid_inv_key [OF m this] show "key_ok dists' e" by simp
next
  fix v y assume "v \<notin> insert u visited" "dists' v = Some (Fin y)"
  then show "(Fin y, v) \<in> set pq" by (rule mid_inv_queued [OF m])
next
  fix v assume "v \<in> insert u visited"
  from mid_inv_visited [OF m this] obtain y where y: "dists' v = Some (Fin y)" "y \<le> x"
    by blast
  have "Fin y \<le> fst e" if "e \<in> set pq" for e
  proof -
    from mid_inv_key [OF m that] have "Fin x \<le> fst e" by simp
    moreover from y(2) have "Fin y \<le> Fin x" by simp
    ultimately show ?thesis by (rule order_trans [rotated])
  qed
  with y show "\<exists>y. dists' v = Some (Fin y) \<and> (\<forall>e \<in> set pq. Fin y \<le> fst e)" by blast
next
  fix u' v w assume a: "u' \<in> insert u visited" "(v, w) \<in> set (adj_of g u')"
  show "\<exists>du dv. dists' u' = Some du \<and> dists' v = Some dv \<and> dv \<le> fadd du w"
  proof (cases "u' = u")
    case True
    with a n mid_inv_source [OF m] show ?thesis by blast
  next
    case False
    with a have uv: "u' \<in> visited" by simp
    from dj_inv_closed [OF inv this a(2)] obtain du dv where
      d: "dists u' = Some du" "dists v = Some dv" "dv \<le> fadd du w"
      by blast
    from settles_vis [OF s a(1)] d(1) have "dists' u' = Some du" by simp
    moreover from settles_le [OF s d(2)] obtain dv' where "dists' v = Some dv'" "dv' \<le> dv"
      by blast
    ultimately show ?thesis using d(3) by auto
  qed
next
  fix u' v w assume "(v, w) \<in> set (adj_of g u')"
  from dj_inv_edges [OF inv this] settles_None [OF s, of v]
  show "dists' v \<noteq> None \<and> 0 \<le> w" by simp
qed

lemma dj_visit:
  assumes inv: "dj_inv g dists ((d, u) # pq') visited" and u: "u \<notin> visited"
  shows "\<exists>dists' pq''. relax_dj u (adj_of g u) (dists, pq') = Inr (dists', pq'')
           \<and> dj_inv g dists' pq'' (insert u visited)
           \<and> settles (insert u visited) dists dists'"
proof -
  from dj_inv_start [OF inv u] obtain x where m: "mid_inv u x (insert u visited) dists pq'"
    by blast
  have "\<forall>v w. (v, w) \<in> set (adj_of g u) \<longrightarrow> dists v \<noteq> None \<and> 0 \<le> w"
    using dj_inv_edges [OF inv] by blast
  from relax_dj_mid [OF m this]
  obtain dists' pq'' where r: "relax_dj u (adj_of g u) (dists, pq') = Inr (dists', pq'')"
    "mid_inv u x (insert u visited) dists' pq''" "settles (insert u visited) dists dists'"
    "\<forall>v w. (v, w) \<in> set (adj_of g u) \<longrightarrow> (\<exists>dv. dists' v = Some dv \<and> dv \<le> fadd (Fin x) w)"
    by blast
  from dj_inv_finish [OF inv r(2,3,4)] r(1,3) show ?thesis by blast
qed

lemma dj_total:
  assumes "dj_inv g dists pq visited"
  shows "\<exists>dfin. dijkstra_loop g (dists, pq, visited) = Inr dfin \<and> settles visited dists dfin"
  using assms
proof (induction g "(dists, pq, visited)" arbitrary: dists pq visited rule: dijkstra_loop.induct)
  case (1 g dists pq visited)
  show ?case
  proof (cases pq)
    case Nil
    then show ?thesis by (simp add: dijkstra_loop_Nil settles_refl)
  next
    case (Cons e pq')
    obtain d u where e: "e = (d, u)" by (cases e)
    show ?thesis
    proof (cases "u \<in> visited")
      case True
      have "dj_inv g dists pq' visited"
        using dj_inv_pop [of g dists e pq' visited] "1.prems" Cons e True by simp
      from "1.hyps"(1) [OF Cons e [symmetric] True this] show ?thesis
        using Cons e True by (simp add: dijkstra_loop_Cons)
    next
      case False
      from dj_visit [of g dists d u pq' visited] "1.prems" Cons e False
      obtain dists' pq'' where r: "relax_dj u (adj_of g u) (dists, pq') = Inr (dists', pq'')"
        "dj_inv g dists' pq'' (insert u visited)" "settles (insert u visited) dists dists'"
        by auto
      from "1.hyps"(2) [OF Cons e [symmetric] False r(1) refl r(2)]
      obtain dfin where f: "dijkstra_loop g (dists', pq'', insert u visited) = Inr dfin"
        "settles (insert u visited) dists' dfin"
        by blast
      have "settles visited dists dfin"
        using settles_mono [OF settles_trans [OF r(3) f(2)]] by blast
      with f(1) show ?thesis
        using Cons e False r(1) by (simp add: dijkstra_loop_Cons)
    qed
  qed
qed

section \<open>Parent pointers, the reconstructed path and its length\<close>

lemma pchain_upd:
  "pchain g parent s xs y \<Longrightarrow> v \<notin> set xs \<Longrightarrow> pchain g (parent(v \<mapsto> z)) s xs y"
proof (induction rule: pchain.induct)
  case pchain_root
  then have "(parent(v \<mapsto> z)) s = Some None" by simp
  then show ?case by (rule pchain.pchain_root)
next
  case (pchain_step u p y v' w)
  from pchain_step.prems have nv: "v \<notin> set (u # p)" and vv: "v' \<noteq> v" by auto
  have 1: "pchain g (parent(v \<mapsto> z)) s (u # p) y"
    by (rule pchain_step.IH [OF nv])
  have 2: "(parent(v \<mapsto> z)) v' = Some (Some u)"
    using vv pchain_step.hyps(2) by simp
  show ?case
    by (rule pchain.pchain_step [OF 1 2 pchain_step.hyps(3)])
qed

lemma p_inv_step:
  assumes p: "p_inv g s vis dists parent" and du: "dists u = Some (Fin x)" and u: "u \<in> vis"
    and v: "v \<notin> vis" and e: "(v, w) \<in> set (adj_of g u)" and z: "fadd (Fin x) w = Fin z"
  shows "p_inv g s vis (dists(v \<mapsto> Fin z)) (parent(v \<mapsto> Some u))"
  unfolding p_inv_def
proof (intro allI impI)
  fix v0 y assume a: "(dists(v \<mapsto> Fin z)) v0 = Some (Fin y)"
  show "\<exists>p. pchain g (parent(v \<mapsto> Some u)) s (v0 # p) (Fin y) \<and> set p \<subseteq> vis"
  proof (cases "v0 = v")
    case True
    with a have y: "y = z" by simp
    from p du obtain pu where pu: "pchain g parent s (u # pu) (Fin x)" "set pu \<subseteq> vis"
      unfolding p_inv_def by blast
    with u v have "v \<notin> set (u # pu)" by auto
    from pchain_upd [OF pu(1) this]
    have 1: "pchain g (parent(v \<mapsto> Some u)) s (u # pu) (Fin x)" .
    have 2: "(parent(v \<mapsto> Some u)) v = Some (Some u)" by simp
    have "pchain g (parent(v \<mapsto> Some u)) s (v # u # pu) (fadd (Fin x) w)"
      by (rule pchain_step [OF 1 2 e])
    then have "pchain g (parent(v \<mapsto> Some u)) s (v # u # pu) (Fin z)"
      unfolding z .
    moreover have "set (u # pu) \<subseteq> vis" using pu(2) u by simp
    ultimately show ?thesis unfolding True y by blast
  next
    case False
    with a have "dists v0 = Some (Fin y)" by simp
    with p obtain p0 where p0: "pchain g parent s (v0 # p0) (Fin y)" "set p0 \<subseteq> vis"
      unfolding p_inv_def by blast
    with v False have "v \<notin> set (v0 # p0)" by auto
    from pchain_upd [OF p0(1) this] p0(2) show ?thesis by blast
  qed
qed

lemma p_inv_mono: "p_inv g s vis dists parent \<Longrightarrow> vis \<subseteq> vis' \<Longrightarrow> p_inv g s vis' dists parent"
  unfolding p_inv_def by (meson subset_trans)

lemma relax_sp_mid:
  assumes "mid_inv u x vis dists pq"
    and "\<forall>v w. (v, w) \<in> set ns \<longrightarrow> dists v \<noteq> None \<and> 0 \<le> w \<and> (v, w) \<in> set (adj_of g u)"
    and "p_inv g s vis dists parent"
  shows "\<exists>dists' parent' pq'. relax_sp u ns (dists, parent, pq) = Inr (dists', parent', pq')
           \<and> p_inv g s vis dists' parent'"
  using assms
proof (induction ns arbitrary: dists parent pq)
  case Nil
  then show ?case by simp
next
  case (Cons a ns)
  obtain v w where a: "a = (v, w)" by (cases a)
  from mid_inv_source [OF Cons.prems(1)] have du: "dists u = Some (Fin x)" and u: "u \<in> vis"
    by simp_all
  from floats_okD [OF mid_inv_floats [OF Cons.prems(1)] du] have dx: "is_double (Fin x)" by simp
  from Cons.prems(2) obtain dv where dv: "dists v = Some dv" and w: "0 \<le> w"
    and e: "(v, w) \<in> set (adj_of g u)"
    by (auto simp: a)
  have rest: "\<forall>v w. (v, w) \<in> set ns \<longrightarrow> dists v \<noteq> None \<and> 0 \<le> w \<and> (v, w) \<in> set (adj_of g u)"
    using Cons.prems(2) by simp
  show ?case
  proof (cases "fadd (Fin x) w < dv")
    case True
    from relaxed_value [OF dx w True] obtain z where
      z: "fadd (Fin x) w = Fin z" "x \<le> z" "is_double (Fin z)"
      by blast
    let ?d = "dists(v \<mapsto> Fin z)" and ?q = "heappush pq (Fin z, v)"
    let ?p = "parent(v \<mapsto> Some u)"
    from True z(1) have lt: "Fin z < dv" by simp
    from mid_step [OF Cons.prems(1) z(2,3) dv lt]
    have nv: "v \<notin> vis" and m': "mid_inv u x vis ?d ?q" .
    have rest': "\<forall>v' w'. (v', w') \<in> set ns \<longrightarrow> ?d v' \<noteq> None \<and> 0 \<le> w' \<and> (v', w') \<in> set (adj_of g u)"
      using rest by auto
    have p': "p_inv g s vis ?d ?p"
      using p_inv_step [OF Cons.prems(3) du u nv e z(1)] .
    from Cons.IH [OF m' rest' p']
    obtain dists' parent' pq' where r: "relax_sp u ns (?d, ?p, ?q) = Inr (dists', parent', pq')"
      "p_inv g s vis dists' parent'"
      by blast
    have "relax_sp u (a # ns) (dists, parent, pq) = Inr (dists', parent', pq')"
      using True du dv r(1) z(1) by (simp add: a)
    with r(2) show ?thesis by blast
  next
    case False
    from Cons.IH [OF Cons.prems(1) rest Cons.prems(3)]
    obtain dists' parent' pq' where r: "relax_sp u ns (dists, parent, pq) = Inr (dists', parent', pq')"
      "p_inv g s vis dists' parent'"
      by blast
    have "relax_sp u (a # ns) (dists, parent, pq) = Inr (dists', parent', pq')"
      using False du dv r(1) by (simp add: a)
    with r(2) show ?thesis by blast
  qed
qed

lemma sp_visit:
  assumes inv: "dj_inv g dists ((d, u) # pq') visited" and u: "u \<notin> visited"
    and p: "p_inv g s visited dists parent"
  shows "\<exists>dists' parent' pq''.
           relax_sp u (adj_of g u) (dists, parent, pq') = Inr (dists', parent', pq'')
           \<and> relax_dj u (adj_of g u) (dists, pq') = Inr (dists', pq'')
           \<and> dj_inv g dists' pq'' (insert u visited)
           \<and> settles (insert u visited) dists dists'
           \<and> p_inv g s (insert u visited) dists' parent'"
proof -
  from dj_visit [OF inv u]
  obtain d1 q1 where r: "relax_dj u (adj_of g u) (dists, pq') = Inr (d1, q1)"
    "dj_inv g d1 q1 (insert u visited)" "settles (insert u visited) dists d1"
    by blast
  from dj_inv_start [OF inv u] obtain x where m: "mid_inv u x (insert u visited) dists pq'"
    by blast
  have ed: "\<forall>v w. (v, w) \<in> set (adj_of g u) \<longrightarrow>
      dists v \<noteq> None \<and> 0 \<le> w \<and> (v, w) \<in> set (adj_of g u)"
    using dj_inv_edges [OF inv] by blast
  have p': "p_inv g s (insert u visited) dists parent"
    using p_inv_mono [OF p] by blast
  from relax_sp_mid [OF m ed p']
  obtain d2 p2 q2 where rs: "relax_sp u (adj_of g u) (dists, parent, pq') = Inr (d2, p2, q2)"
    "p_inv g s (insert u visited) d2 p2"
    by blast
  from r(1) rs(1) relax_sp_dj [of u "adj_of g u" dists pq' parent] have "d1 = d2" "q1 = q2"
    by simp_all
  with r rs show ?thesis by blast
qed

lemma fpath_double: "fpath g s v f \<Longrightarrow> is_double f"
  by (induction rule: fpath.induct) (simp_all add: fadd_double)

lemma path_bound:
  assumes inv: "dj_inv g dists pq visited"
    and src: "dists s = Some d0" "d0 \<le> Fin 0"
    and ub: "\<forall>v y. v \<notin> visited \<longrightarrow> dists v = Some (Fin y) \<longrightarrow> b \<le> Fin y"
    and p: "fpath g s v f"
  shows "\<exists>dv. dists v = Some dv \<and> (dv \<le> f \<or> b \<le> f)"
  using p
proof (induction rule: fpath.induct)
  case fpath_source
  from src show ?case by blast
next
  case (fpath_edge u f v w)
  then obtain du where du: "dists u = Some du" "du \<le> f \<or> b \<le> f" by blast
  from dj_inv_edges [OF inv fpath_edge.hyps(2)] obtain dv where dv: "dists v = Some dv"
    and w: "0 \<le> w"
    by auto
  from fadd_ge [OF fpath_double [OF fpath_edge.hyps(1)] w] have up: "f \<le> fadd f w" .
  have "dv \<le> fadd f w \<or> b \<le> fadd f w"
  proof (cases "b \<le> f")
    case True
    with up show ?thesis by auto
  next
    case False
    with du have le: "du \<le> f" by simp
    show ?thesis
    proof (cases "u \<in> visited")
      case True
      from dj_inv_closed [OF inv True fpath_edge.hyps(2)] du dv have "dv \<le> fadd du w" by simp
      also have "\<dots> \<le> fadd f w" using le by (rule fadd_mono)
      finally show ?thesis by simp
    next
      case nv: False
      show ?thesis
      proof (cases du)
        case NInfty
        with floats_okD [OF dj_inv_floats [OF inv] du(1)] show ?thesis by simp
      next
        case (Fin y)
        with ub nv du have "b \<le> du" by simp
        with le up show ?thesis by auto
      next
        case Infty
        with le have "f = Infty" by simp
        then show ?thesis by simp
      qed
    qed
  qed
  with dv show ?case by blast
qed

lemma sp_main:
  assumes "dj_inv g dists pq visited" and "p_inv g s visited dists parent"
    and "t \<notin> visited" and "\<exists>d0. dists s = Some d0 \<and> d0 \<le> Fin 0"
  shows "\<exists>dists' parent' vis' dfin.
           sp_loop g t (dists, parent, pq, visited) = Inr (dists', parent')
           \<and> p_inv g s vis' dists' parent'
           \<and> floats_ok dists'
           \<and> (\<forall>v. dists' v = None \<longleftrightarrow> dists v = None)
           \<and> (\<forall>f. fpath g s t f \<longrightarrow> (\<exists>dt. dists' t = Some dt \<and> dt \<le> f))
           \<and> dijkstra_loop g (dists, pq, visited) = Inr dfin \<and> dfin t = dists' t"
  using assms
proof (induction g t "(dists, parent, pq, visited)" arbitrary: dists parent pq visited
    rule: sp_loop.induct)
  case (1 g t dists parent pq visited)
  note inv = "1.prems"(1) and p = "1.prems"(2) and tv = "1.prems"(3) and sf = "1.prems"(4)
  from sf obtain d0 where d0: "dists s = Some d0" "d0 \<le> Fin 0" by blast
  show ?case
  proof (cases pq)
    case Nil
    have ub: "\<forall>v y. v \<notin> visited \<longrightarrow> dists v = Some (Fin y) \<longrightarrow> Infty \<le> Fin y"
      using dj_inv_queued [OF inv] Nil by fastforce
    have "\<exists>dt. dists t = Some dt \<and> dt \<le> f" if "fpath g s t f" for f
      using path_bound [OF inv d0 ub that] by auto
    with p dj_inv_floats [OF inv] show ?thesis
      using Nil by (auto simp: sp_loop_Nil dijkstra_loop_Nil)
  next
    case (Cons e pq')
    obtain d u where e: "e = (d, u)" by (cases e)
    from inv Cons e have inv': "dj_inv g dists ((d, u) # pq') visited" by simp
    consider "u = t" | "u \<noteq> t" "u \<in> visited" | "u \<noteq> t" "u \<notin> visited" by blast
    then show ?thesis
    proof cases
      case 1
      with tv have uv: "u \<notin> visited" by simp
      from dj_inv_start [OF inv' uv] obtain x where
        x: "d = Fin x" "mid_inv u x (insert u visited) dists pq'"
        by blast
      from mid_inv_source [OF x(2)] 1 have dt: "dists t = Some (Fin x)" by simp
      have ub: "\<forall>v y. v \<notin> visited \<longrightarrow> dists v = Some (Fin y) \<longrightarrow> Fin x \<le> Fin y"
      proof (intro allI impI)
        fix v y assume a: "v \<notin> visited" "dists v = Some (Fin y)"
        from dj_inv_queued [OF inv' a] have "(Fin y, v) \<in> set ((d, u) # pq')" .
        with dj_inv_sorted [OF inv'] have "(d, u) \<le> (Fin y, v)" by auto
        then have "d \<le> Fin y" by auto
        then show "Fin x \<le> Fin y" unfolding x(1) .
      qed
      have opt: "\<exists>dt. dists t = Some dt \<and> dt \<le> f" if "fpath g s t f" for f
        using path_bound [OF inv' d0 ub that] dt by auto
      from dj_visit [OF inv' uv]
      obtain d1 q1 where r: "relax_dj u (adj_of g u) (dists, pq') = Inr (d1, q1)"
        "dj_inv g d1 q1 (insert u visited)" "settles (insert u visited) dists d1"
        by blast
      from dj_total [OF r(2)] obtain dfin where
        f: "dijkstra_loop g (d1, q1, insert u visited) = Inr dfin"
        "settles (insert u visited) d1 dfin"
        by blast
      have "dfin t = dists t"
        using settles_vis [OF r(3), of t] settles_vis [OF f(2), of t] 1 by simp
      moreover have "dijkstra_loop g (dists, pq, visited) = Inr dfin"
        using Cons e uv r(1) f(1) by (simp add: dijkstra_loop_Cons)
      moreover have "sp_loop g t (dists, parent, pq, visited) = Inr (dists, parent)"
        using Cons e 1 by (simp add: sp_loop_Cons)
      ultimately show ?thesis using p opt dj_inv_floats [OF inv] by blast
    next
      case 2
      have i2: "dj_inv g dists pq' visited"
        using dj_inv_pop [OF inv'] 2 by simp
      from "1.hyps"(1) [OF Cons e [symmetric] 2 i2 p tv sf]
      show ?thesis using Cons e 2 by (simp add: sp_loop_Cons dijkstra_loop_Cons)
    next
      case 3
      from sp_visit [OF inv' 3(2) p]
      obtain d1 p1 q1 where r: "relax_sp u (adj_of g u) (dists, parent, pq') = Inr (d1, p1, q1)"
        "relax_dj u (adj_of g u) (dists, pq') = Inr (d1, q1)"
        "dj_inv g d1 q1 (insert u visited)" "settles (insert u visited) dists d1"
        "p_inv g s (insert u visited) d1 p1"
        by blast
      have tv': "t \<notin> insert u visited" using tv 3 by auto
      from settles_le [OF r(4) d0(1)] d0(2) have sf': "\<exists>d0. d1 s = Some d0 \<and> d0 \<le> Fin 0"
        by auto
      from "1.hyps"(2) [OF Cons e [symmetric] 3 r(1) refl refl r(3) r(5) tv' sf']
      obtain dists' parent' vis' dfin where
        l: "sp_loop g t (d1, p1, q1, insert u visited) = Inr (dists', parent')"
        "p_inv g s vis' dists' parent'" "floats_ok dists'"
        "\<forall>v. dists' v = None \<longleftrightarrow> d1 v = None"
        "\<forall>f. fpath g s t f \<longrightarrow> (\<exists>dt. dists' t = Some dt \<and> dt \<le> f)"
        "dijkstra_loop g (d1, q1, insert u visited) = Inr dfin" "dfin t = dists' t"
        by blast
      have "\<forall>v. dists' v = None \<longleftrightarrow> dists v = None"
        using l(4) settles_None [OF r(4)] by simp
      moreover have "sp_loop g t (dists, parent, pq, visited) = Inr (dists', parent')"
        using Cons e 3 r(1) l(1) by (simp add: sp_loop_Cons)
      moreover have "dijkstra_loop g (dists, pq, visited) = Inr dfin"
        using Cons e 3 r(2) l(6) by (simp add: dijkstra_loop_Cons)
      ultimately show ?thesis using l(2,3,5,7) by blast
    qed
  qed
qed

lemma fsum_snoc: "fsum (ws @ [w]) = fadd (fsum ws) w"
  by (simp add: fsum_def)

lemma valid_path_snoc:
  "valid_path g xs ws \<Longrightarrow> (v, w) \<in> set (adj_of g (last xs)) \<Longrightarrow>
     valid_path g (xs @ [v]) (ws @ [w])"
  by (induction g xs ws rule: valid_path.induct) auto

lemma pchain_path:
  "pchain g parent s xs y \<Longrightarrow>
     xs \<noteq> [] \<and> last xs = s \<and> (\<exists>ws. valid_path g (rev xs) ws \<and> fsum ws = y)"
proof (induction rule: pchain.induct)
  case pchain_root
  have "valid_path g (rev [s]) [] \<and> fsum [] = Fin 0" by (simp add: fsum_def)
  then show ?case by auto
next
  case (pchain_step u p y v w)
  then obtain ws where ws: "valid_path g (rev (u # p)) ws" "fsum ws = y" and l: "last (u # p) = s"
    by blast
  have "last (rev (u # p)) = u" by simp
  with pchain_step.hyps(3) have "(v, w) \<in> set (adj_of g (last (rev (u # p))))" by simp
  from valid_path_snoc [OF ws(1) this] have "valid_path g (rev (v # u # p)) (ws @ [w])" by simp
  moreover have "fsum (ws @ [w]) = fadd y w" using ws(2) by (simp add: fsum_snoc)
  ultimately show ?case using l by auto
qed

lemma pchain_walk:
  "pchain g parent s xs y \<Longrightarrow> \<forall>acc. walk parent (Some (hd xs)) acc = Some (Inr (acc @ xs))"
proof (induction rule: pchain.induct)
  case pchain_root
  show ?case
  proof
    fix acc
    have "walk parent (Some s) acc = walk parent None (acc @ [s])"
      using pchain_root by (subst walk.simps) simp
    also have "\<dots> = Some (Inr (acc @ [s]))"
      by (subst walk.simps) simp
    finally show "walk parent (Some (hd [s])) acc = Some (Inr (acc @ [s]))" by simp
  qed
next
  case (pchain_step u p y v w)
  show ?case
  proof
    fix acc
    have "walk parent (Some v) acc = walk parent (Some u) (acc @ [v])"
      using pchain_step.hyps(2) by (subst walk.simps) simp
    also have "\<dots> = Some (Inr ((acc @ [v]) @ (u # p)))"
      using pchain_step.IH by simp
    finally show "walk parent (Some (hd (v # u # p))) acc = Some (Inr (acc @ v # u # p))" by simp
  qed
qed

lemma fpath_valid_path:
  "fpath g s x a \<Longrightarrow> valid_path g (x # zs) ws \<Longrightarrow> fpath g s (last (x # zs)) (foldl fadd a ws)"
proof (induction zs arbitrary: x ws a)
  case Nil
  then show ?case by simp
next
  case (Cons y zs)
  from Cons.prems(2) obtain w ws' where ws: "ws = w # ws'" "(y, w) \<in> set (adj_of g x)"
    "valid_path g (y # zs) ws'"
    by (cases ws) auto
  from Cons.prems(1) ws(2) have "fpath g s y (fadd a w)" by (rule fpath_edge)
  from Cons.IH [OF this ws(3)] show ?case by (simp add: ws(1))
qed

lemma valid_path_fpath:
  assumes "valid_path g p ws"
  shows "fpath g (hd p) (last p) (fsum ws)"
proof -
  from assms obtain x zs where p: "p = x # zs" by (cases p) auto
  from fpath_valid_path [OF fpath_source, of g x zs ws] assms show ?thesis
    by (simp add: p fsum_def)
qed

lemma adj_of_nonneg:
  assumes "nonneg_weights g" "(v, w) \<in> set (adj_of g u)"
  shows "0 \<le> w"
proof -
  from adj_of_entry [OF assms(2)] obtain ns where "(u, ns) \<in> set (adj g)" "(v, w) \<in> set ns"
    by blast
  with assms(1) show ?thesis
    unfolding nonneg_weights_def list_all_iff by fastforce
qed

lemma reachable_in_range:
  assumes "neighbours_in_range g" "0 \<le> s" "s < V g" "reachable g s v"
  shows "0 \<le> v \<and> v < V g"
  using assms(4)
proof (induction rule: reachable.induct)
  case reach_source
  from assms(2,3) show ?case by simp
next
  case (reach_edge u v w)
  from adj_of_in_range [OF assms(1) reach_edge.hyps(2)] show ?case .
qed

lemma init_dists_Fin: "init_dists g s v = Some (Fin y) \<longleftrightarrow> v = s \<and> y = 0"
  by (auto simp: init_dists_def range_dict_def)

lemma floats_ok_init: "floats_ok (init_dists g s)"
  by (auto simp: floats_ok_def init_dists_def range_dict_def split: if_splits)

lemma dj_inv_init:
  assumes "neighbours_in_range g" "nonneg_weights g"
  shows "dj_inv g (init_dists g s) [(Fin 0, s)] {}"
proof (rule dj_invI)
  show "sorted [(Fin 0, s)]" by simp
  show "floats_ok (init_dists g s)" by (rule floats_ok_init)
next
  fix e assume "e \<in> set [(Fin 0, s)]"
  then show "key_ok (init_dists g s) e" by (simp add: key_ok_def init_dists_Fin)
next
  fix v y assume "init_dists g s v = Some (Fin y)"
  then show "(Fin y, v) \<in> set [(Fin 0, s)]" by (simp add: init_dists_Fin)
next
  fix u v w assume e: "(v, w) \<in> set (adj_of g u)"
  from adj_of_in_range [OF assms(1) e] have "init_dists g s v \<noteq> None"
    by (simp add: init_dists_def range_dict_def)
  with adj_of_nonneg [OF assms(2) e] show "init_dists g s v \<noteq> None \<and> 0 \<le> w" by simp
qed simp_all

lemma p_inv_init:
  assumes "0 \<le> s" "s < V g"
  shows "p_inv g s {} (init_dists g s) (range_dict (V g) None)"
  unfolding p_inv_def
proof (intro allI impI)
  fix v y assume "init_dists g s v = Some (Fin y)"
  then have vy: "v = s" "y = 0" by (simp_all add: init_dists_Fin)
  have "range_dict (V g) (None :: int option) s = Some None"
    using assms by (simp add: range_dict_def)
  then have "pchain g (range_dict (V g) None) s [s] (Fin 0)" by (rule pchain_root)
  then show "\<exists>p. pchain g (range_dict (V g) None) s (v # p) (Fin y) \<and> set p \<subseteq> {}"
    unfolding vy by auto
qed

lemma dijkstra_source_zero:
  assumes "neighbours_in_range g" and "nonneg_weights g"
  shows "\<exists>dists. dijkstra g s = Inr dists \<and> dists s = Some (Fin 0)"
proof -
  have inv: "dj_inv g (init_dists g s) ((Fin 0, s) # []) {}"
    using dj_inv_init [OF assms] .
  from dj_visit [OF inv] obtain d1 q1 where
    r: "relax_dj s (adj_of g s) (init_dists g s, []) = Inr (d1, q1)"
    "dj_inv g d1 q1 (insert s {})" "settles (insert s {}) (init_dists g s) d1"
    by auto
  from dj_total [OF r(2)] obtain dfin where
    f: "dijkstra_loop g (d1, q1, insert s {}) = Inr dfin" "settles (insert s {}) d1 dfin"
    by blast
  have "dfin s = init_dists g s s"
    using settles_vis [OF r(3), of s] settles_vis [OF f(2), of s] by simp
  then have "dfin s = Some (Fin 0)" by (simp add: init_dists_Fin)
  moreover have "dijkstra g s = Inr dfin"
    using r(1) f(1) by (simp add: dijkstra_def init_dists_def Let_def dijkstra_loop_Cons)
  ultimately show ?thesis by blast
qed

lemma solvers_agree:
  assumes "neighbours_in_range g" "nonneg_weights g" "0 \<le> s" "s < V g" "reachable g s t"
  shows "\<exists>dfin path total.
           dijkstra g s = Inr dfin \<and> dfin t = Some total
           \<and> get_shortest_path g s t = Some (Inr (path, total))
           \<and> (\<forall>p ws. valid_path g p ws \<and> hd p = s \<and> last p = t \<longrightarrow> total \<le> fsum ws)
           \<and> (total = Infty \<longrightarrow> path = [])
           \<and> (total \<noteq> Infty \<longrightarrow> path \<noteq> [] \<and> hd path = s \<and> last path = t
                \<and> (\<exists>ws. valid_path g path ws \<and> fsum ws = total))"
proof -
  have sf: "\<exists>d0. init_dists g s s = Some d0 \<and> d0 \<le> Fin 0" by (simp add: init_dists_def)
  from sp_main [OF dj_inv_init [OF assms(1,2)] p_inv_init [OF assms(3,4)] _ sf, of t]
  obtain dists' parent' vis' dfin where
    l: "sp_loop g t (init_dists g s, range_dict (V g) None, [(Fin 0, s)], {}) = Inr (dists', parent')"
    and p: "p_inv g s vis' dists' parent'"
    and fl: "floats_ok dists'"
    and dom: "\<forall>v. dists' v = None \<longleftrightarrow> init_dists g s v = None"
    and opt: "\<forall>f. fpath g s t f \<longrightarrow> (\<exists>dt. dists' t = Some dt \<and> dt \<le> f)"
    and d: "dijkstra_loop g (init_dists g s, [(Fin 0, s)], {}) = Inr dfin" "dfin t = dists' t"
    by auto
  from reachable_in_range [OF assms(1,3,4,5)] have "init_dists g s t \<noteq> None"
    by (simp add: init_dists_def range_dict_def)
  with dom have "dists' t \<noteq> None" by simp
  then obtain total where total: "dists' t = Some total" by blast
  have 2: "dijkstra g s = Inr dfin"
    using d(1) by (simp add: dijkstra_def init_dists_def Let_def)
  have 3: "total \<le> fsum ws" if "valid_path g p ws \<and> hd p = s \<and> last p = t" for p ws
  proof -
    from that valid_path_fpath [of g p ws] have "fpath g s t (fsum ws)" by auto
    with opt total show ?thesis by auto
  qed
  show ?thesis
  proof (cases "total = Infty")
    case True
    with l total have "get_shortest_path g s t = Some (Inr ([], total))"
      by (simp add: get_shortest_path_def init_dists_def Let_def)
    moreover have "dfin t = Some total" using d(2) total by simp
    moreover have "\<forall>p ws. valid_path g p ws \<and> hd p = s \<and> last p = t \<longrightarrow> total \<le> fsum ws"
      using 3 by blast
    ultimately show ?thesis using 2 True by blast
  next
    case False
    with floats_okD [OF fl total] obtain y where y: "total = Fin y" by (cases total) auto
    from p total y obtain pth where c: "pchain g parent' s (t # pth) (Fin y)"
      unfolding p_inv_def by blast
    from pchain_walk [OF c] have w: "walk parent' (Some t) [] = Some (Inr (t # pth))"
      by simp
    have 1: "get_shortest_path g s t = Some (Inr (rev (t # pth), total))"
      using l total y w by (simp add: get_shortest_path_def init_dists_def Let_def)
    from pchain_path [OF c] obtain ws where
      ws: "last (t # pth) = s" "valid_path g (rev (t # pth)) ws" "fsum ws = total"
      unfolding y by blast
    have "hd (rev (t # pth)) = last (t # pth)" by (rule hd_rev)
    with ws(1) have e: "rev (t # pth) \<noteq> []" "hd (rev (t # pth)) = s" "last (rev (t # pth)) = t"
      by simp_all
    have 4: "dfin t = Some total" using d(2) total by simp
    have 5: "\<forall>p ws. valid_path g p ws \<and> hd p = s \<and> last p = t \<longrightarrow> total \<le> fsum ws"
      using 3 by blast
    have 6: "\<exists>ws. valid_path g (rev (t # pth)) ws \<and> fsum ws = total"
      using ws(2,3) by blast
    show ?thesis
      apply (rule exI [of _ dfin], rule exI [of _ "rev (t # pth)"], rule exI [of _ total])
      using 1 2 4 5 6 e False by simp
  qed
qed

section \<open>The two solvers agree, and the returned path is a path\<close>

text \<open>
  C1 (as amended). In a graph whose adjacency neighbours are all node indices in
  \<open>[0, V)\<close> and whose edge weights are non-negative, for every source \<open>s\<close> in
  \<open>[0, V)\<close> and every target \<open>v\<close> reachable from \<open>s\<close>, both solvers return, and the
  distance that \<open>dijkstra(s)\<close> assigns to \<open>v\<close> is the total distance that
  \<open>get_shortest_path(s, v)\<close> returns: leaving the loop when the target is popped does
  not change the distance.
\<close>

theorem C1_dijkstra_agrees_with_get_shortest_path:
  assumes "neighbours_in_range g" and "nonneg_weights g"
    and "0 \<le> s" and "s < V g" and "reachable g s v"
  shows "\<exists>dists path total.
           dijkstra g s = Inr dists
           \<and> get_shortest_path g s v = Some (Inr (path, total))
           \<and> dists v = Some total"
  using solvers_agree [OF assms] by blast

text \<open>
  C2 (as amended). In a graph whose adjacency neighbours are all node indices in
  \<open>[0, V)\<close> and whose edge weights are non-negative, for every source \<open>s\<close> in
  \<open>[0, V)\<close> and every target \<open>t\<close> reachable from \<open>s\<close>, \<open>get_shortest_path(s, t)\<close>
  returns a path and a total distance. The total is at most the length of every path
  from \<open>s\<close> to \<open>t\<close>, the length of a path being the float sum of its weights in path
  order. When the total is not \<open>float('inf')\<close>, the returned path is not empty, starts
  at \<open>s\<close>, ends at \<open>t\<close>, its consecutive nodes are joined by edges of the graph, and
  the float sum of the weights of those edges is the total. When the total is
  \<open>float('inf')\<close>, that is, when the length of every path from \<open>s\<close> to \<open>t\<close>
  overflows, the returned path is empty.
\<close>

theorem C2_shortest_path_is_a_path:
  assumes "neighbours_in_range g" and "nonneg_weights g"
    and "0 \<le> s" and "s < V g" and "reachable g s t"
  shows "\<exists>path total.
           get_shortest_path g s t = Some (Inr (path, total))
           \<and> (\<forall>p ws. valid_path g p ws \<and> hd p = s \<and> last p = t \<longrightarrow> total \<le> fsum ws)
           \<and> (total = Infty \<longrightarrow> path = [])
           \<and> (total \<noteq> Infty \<longrightarrow> path \<noteq> [] \<and> hd path = s \<and> last path = t
                \<and> (\<exists>ws. valid_path g path ws \<and> fsum ws = total))"
  using solvers_agree [OF assms] by blast

text \<open>
  The graphs of the data model are those the interface builds: a run of \<open>add_vertex\<close>
  and \<open>add_edge\<close> calls with non-negative node identifiers and weights, from
  \<open>Graph(n)\<close>, gives a graph whose neighbours are in range and whose weights are
  non-negative, and its adjacency lists hold exactly the edges of its edge list.
\<close>

lemma edges_match_call: "edges_match g \<Longrightarrow> edges_match (call g c)"
  by (cases c) (auto simp: edges_match_def adj_of_add_vertex edges_add_vertex adj_of_add_edge
      edges_add_edge)

lemma edges_match_calls: "edges_match (calls cs (Graph n))"
proof -
  have "edges_match g \<Longrightarrow> edges_match (calls cs g)" for g
    unfolding calls_def by (induction cs arbitrary: g) (simp_all add: edges_match_call)
  moreover have "edges_match (Graph n)"
    by (simp add: edges_match_def Graph_def adj_of_def)
  ultimately show ?thesis .
qed

lemma set_update_subset: "set (AList.update k v al) \<subseteq> insert (k, v) (set al)"
  by (induction al) auto

lemma entries_add_vertex:
  assumes "(k, ns) \<in> set (adj (add_vertex g x))" "e \<in> set ns"
  shows "\<exists>k' ns'. (k', ns') \<in> set (adj g) \<and> e \<in> set ns'"
  using assms by (auto simp: add_vertex_def Let_def split: if_splits)

lemma entries_add_edge:
  assumes "(k, ns) \<in> set (adj (add_edge g u v w))" "e \<in> set ns"
  shows "e = (v, w) \<or> (\<exists>k' ns'. (k', ns') \<in> set (adj g) \<and> e \<in> set ns')"
proof -
  define g2 where "g2 = add_vertex (add_vertex g u) v"
  have old: "\<exists>k' ns'. (k', ns') \<in> set (adj g) \<and> e' \<in> set ns'"
    if "(k2, n2) \<in> set (adj g2)" "e' \<in> set n2" for k2 n2 e'
  proof -
    from that(1) have "(k2, n2) \<in> set (adj (add_vertex (add_vertex g u) v))"
      by (simp add: g2_def)
    from entries_add_vertex [OF this that(2)] obtain k1 n1 where
      "(k1, n1) \<in> set (adj (add_vertex g u))" "e' \<in> set n1"
      by blast
    then show ?thesis by (rule entries_add_vertex)
  qed
  have "adj (add_edge g u v w) = AList.update u (adj_of g2 u @ [(v, w)]) (adj g2)"
    by (simp add: add_edge_def Let_def g2_def)
  with assms(1) have "(k, ns) \<in> set (AList.update u (adj_of g2 u @ [(v, w)]) (adj g2))"
    by simp
  with set_update_subset [of u "adj_of g2 u @ [(v, w)]" "adj g2"]
  have "(k, ns) \<in> insert (u, adj_of g2 u @ [(v, w)]) (set (adj g2))"
    by (rule_tac subsetD)
  then consider "ns = adj_of g2 u @ [(v, w)]" | "(k, ns) \<in> set (adj g2)"
    by auto
  then show ?thesis
  proof cases
    case 1
    with assms(2) consider "e = (v, w)" | "e \<in> set (adj_of g2 u)" by auto
    then show ?thesis
    proof cases
      case 1
      then show ?thesis by simp
    next
      case 2
      obtain v' w' where e: "e = (v', w')" by (cases e)
      from adj_of_entry [of v' w' g2 u] 2 e obtain n2 where
        "(u, n2) \<in> set (adj g2)" "e \<in> set n2"
        by auto
      from old [OF this] show ?thesis by simp
    qed
  next
    case 2
    from old [OF 2 assms(2)] show ?thesis by simp
  qed
qed

lemma calls_snoc: "calls (cs @ [c]) g = call (calls cs g) c"
  by (simp add: calls_def)

lemma V_calls_nonneg: "0 \<le> n \<Longrightarrow> 0 \<le> V (calls cs (Graph n))"
proof (induction cs rule: rev_induct)
  case Nil
  then show ?case by (simp add: calls_def Graph_def)
next
  case (snoc c cs)
  then show ?case by (cases c) (auto simp: calls_snoc V_add_vertex V_add_edge)
qed

lemma well_formed_calls:
  assumes "list_all call_ok cs"
  shows "neighbours_in_range (calls cs (Graph n)) \<and> nonneg_weights (calls cs (Graph n))"
  using assms
proof (induction cs rule: rev_induct)
  case Nil
  then show ?case
    by (simp add: calls_def Graph_def neighbours_in_range_def nonneg_weights_def)
next
  case (snoc c cs)
  let ?g = "calls cs (Graph n)"
  from snoc have ih: "neighbours_in_range ?g" "nonneg_weights ?g" and ok: "call_ok c"
    by simp_all
  have r: "0 \<le> v \<and> v < V ?g \<and> 0 \<le> w" if "(k, ns) \<in> set (adj ?g)" "(v, w) \<in> set ns" for k ns v w
    using ih that unfolding neighbours_in_range_def nonneg_weights_def list_all_iff by fastforce
  have "0 \<le> v' \<and> v' < V (call ?g c) \<and> 0 \<le> w'"
    if a: "(k, ns) \<in> set (adj (call ?g c))" "(v', w') \<in> set ns" for k ns v' w'
  proof (cases c)
    case (AddVertex x)
    with a entries_add_vertex [of k ns ?g x "(v', w')"] r show ?thesis
      by (fastforce simp: V_add_vertex)
  next
    case (AddEdge u v w)
    with a entries_add_edge [of k ns ?g u v w "(v', w')"] r ok show ?thesis
      by (fastforce simp: V_add_edge)
  qed
  then show ?case
    unfolding neighbours_in_range_def nonneg_weights_def list_all_iff calls_snoc by fastforce
qed

lemma nonneg_weights_demo: "nonneg_weights demo"
  by (simp add: nonneg_weights_def adj_demo)

lemma reachable_demo_0:
  "reachable demo 0 2" "reachable demo 0 1" "reachable demo 0 3" "reachable demo 0 4"
  "reachable demo 0 5"
proof -
  show 2: "reachable demo 0 2"
    by (rule reach_edge [of demo 0 0 2 5, OF reach_source]) (simp add: adj_of_def adj_demo)
  show 1: "reachable demo 0 1"
    by (rule reach_edge [of demo 0 2 1 3, OF 2]) (simp add: adj_of_def adj_demo)
  show 3: "reachable demo 0 3"
    by (rule reach_edge [of demo 0 1 3 1, OF 1]) (simp add: adj_of_def adj_demo)
  show 4: "reachable demo 0 4"
    by (rule reach_edge [of demo 0 3 4 2, OF 3]) (simp add: adj_of_def adj_demo)
  show "reachable demo 0 5"
    by (rule reach_edge [of demo 0 4 5 4, OF 4]) (simp add: adj_of_def adj_demo)
qed

lemma le_prod_pyfloat [simp]:
  "((a, u) \<le> (b, v)) = (a < b \<or> a = b \<and> u \<le> v)" for a b :: pyfloat and u v :: int
  by (auto simp: less_eq_prod_def)

lemma get_shortest_path_demo_0_5:
  "get_shortest_path demo 0 5 = Some (Inr ([0, 2, 1, 3, 4, 5], Fin 15))"
  by (simp add: run_simps adj_demo V_demo)

lemma get_shortest_path_demo_0_3:
  "get_shortest_path demo 0 3 = Some (Inr ([0, 2, 1, 3], Fin 9))"
  by (simp add: run_simps adj_demo V_demo)

lemma dijkstra_demo_0:
  "\<not> isl (dijkstra demo 0)
   \<and> map (projr (dijkstra demo 0)) [0, 1, 2, 3, 4, 5] =
       [Some (Fin 0), Some (Fin 8), Some (Fin 5), Some (Fin 9), Some (Fin 11), Some (Fin 15)]"
  by (simp add: run_simps adj_demo V_demo)

theorem C1_dijkstra_agrees_with_get_shortest_path_witness:
  "neighbours_in_range demo \<and> nonneg_weights demo \<and> reachable demo 0 5
   \<and> (\<exists>dists. dijkstra demo 0 = Inr dists \<and> dists 5 = Some (Fin 15))
   \<and> get_shortest_path demo 0 5 = Some (Inr ([0, 2, 1, 3, 4, 5], Fin 15))"
proof -
  have "(0::int) \<le> 0" "0 < V demo" by (simp_all add: V_demo)
  from C1_dijkstra_agrees_with_get_shortest_path
    [OF neighbours_in_range_demo nonneg_weights_demo this reachable_demo_0(5)]
  show ?thesis
    using neighbours_in_range_demo nonneg_weights_demo reachable_demo_0(5)
    by (auto simp: get_shortest_path_demo_0_5)
qed

lemma adj_graph_2: "adj (Graph 2) = []" "V (Graph 2) = 2"
  by (simp_all add: Graph_def)

lemma adj_edge_to_minus_1: "adj (add_edge (Graph 0) 0 (- 1) 1) = [(0, [(- 1, 1)]), (- 1, [])]"
  "V (add_edge (Graph 0) 0 (- 1) 1) = 1"
  by code_simp+

text \<open>
  The claim as stated fails for a source outside \<open>[0, V)\<close> and for a graph that stores
  a neighbour outside \<open>[0, V)\<close>. \<open>Graph(2).dijkstra(7)\<close> maps 7 to 0, and
  \<open>Graph(2).get_shortest_path(7, 7)\<close> raises \<open>KeyError\<close> at \<open>parent[7]\<close>. After
  \<open>g.add_edge(0, -1, 1.0)\<close> on the empty graph, \<open>g.dijkstra(0)\<close> and
  \<open>g.get_shortest_path(0, -1)\<close> both raise \<open>KeyError\<close> when they read \<open>dist[-1]\<close>.
\<close>

theorem C1_out_of_range_counterexample:
  "nonneg_weights (Graph 2) \<and> reachable (Graph 2) 7 7
   \<and> \<not> isl (dijkstra (Graph 2) 7) \<and> projr (dijkstra (Graph 2) 7) 7 = Some (Fin 0)
   \<and> get_shortest_path (Graph 2) 7 7 = Some (Inl (KeyError 7))
   \<and> nonneg_weights (add_edge (Graph 0) 0 (- 1) 1)
   \<and> reachable (add_edge (Graph 0) 0 (- 1) 1) 0 (- 1)
   \<and> dijkstra (add_edge (Graph 0) 0 (- 1) 1) 0 = Inl (KeyError (- 1))
   \<and> get_shortest_path (add_edge (Graph 0) 0 (- 1) 1) 0 (- 1) = Some (Inl (KeyError (- 1)))"
proof -
  have "reachable (add_edge (Graph 0) 0 (- 1) 1) 0 (- 1)"
    by (rule reach_edge [of _ 0 0 "- 1" 1, OF reach_source])
      (simp add: adj_of_def adj_edge_to_minus_1)
  then show ?thesis
    by (simp add: run_simps adj_graph_2 adj_edge_to_minus_1 nonneg_weights_def reach_source)
qed

theorem C2_shortest_path_is_a_path_witness:
  "neighbours_in_range demo \<and> nonneg_weights demo \<and> reachable demo 0 3
   \<and> get_shortest_path demo 0 3 = Some (Inr ([0, 2, 1, 3], Fin 9))
   \<and> valid_path demo [0, 2, 1, 3] [5, 3, 1] \<and> fsum [5, 3, 1] = Fin 9
   \<and> valid_path demo [0, 1, 3] [10, 1] \<and> Fin 9 \<le> fsum [10, 1]"
proof -
  have "(0::int) \<le> 0" "0 < V demo" by (simp_all add: V_demo)
  from C2_shortest_path_is_a_path
    [OF neighbours_in_range_demo nonneg_weights_demo this reachable_demo_0(3)]
  have "\<forall>p ws. valid_path demo p ws \<and> hd p = 0 \<and> last p = 3 \<longrightarrow> Fin 9 \<le> fsum ws"
    by (simp add: get_shortest_path_demo_0_3)
  moreover have v: "valid_path demo [0, 1, 3] [10, 1]" "valid_path demo [0, 2, 1, 3] [5, 3, 1]"
    by (simp_all add: adj_of_def adj_demo)
  ultimately have "Fin 9 \<le> fsum [10, 1]" by fastforce
  moreover have "fsum [5, 3, 1] = Fin 9" by (simp add: fsum_def)
  ultimately show ?thesis
    using neighbours_in_range_demo nonneg_weights_demo reachable_demo_0(3) v
    by (simp add: get_shortest_path_demo_0_3)
qed

lemma adj_overflow:
  "adj (add_edge (add_edge (Graph 0) 0 1 w) 1 2 w) = [(0, [(1, w)]), (1, [(2, w)]), (2, [])]"
  "V (add_edge (add_edge (Graph 0) 0 1 w) 1 2 w) = 3"
  by (simp_all add: add_edge_def add_vertex_def Graph_def adj_of_def Let_def)

lemma fround_half_huge: "fround (huge / 2) = Fin (huge / 2)" "fround (huge / 2 + huge / 2) = Infty"
  "fround huge = Infty"
proof -
  show "fround huge = Infty" by (rule fround_overflow) simp
  have e: "huge / 2 = 2 ^ 1023" by (simp add: huge_def)
  show "fround (huge / 2) = Fin (huge / 2)" unfolding e by (rule fround_pow2_1023)
  show "fround (huge / 2 + huge / 2) = Infty" by (rule fround_overflow) simp
qed

text \<open>
  The claim as stated fails when the sum of the weights overflows, for a source outside
  \<open>[0, V)\<close>, and for a graph that stores a neighbour outside \<open>[0, V)\<close>. With the
  edges \<open>(0, 1, 2.0 ** 1023)\<close> and \<open>(1, 2, 2.0 ** 1023)\<close> the node 2 is reachable from
  0 and \<open>get_shortest_path(0, 2)\<close> returns the empty path with \<open>float('inf')\<close>: the
  relaxation of 2 computes \<open>inf\<close>, which is not less than \<open>inf\<close>.
  \<open>Graph(2).get_shortest_path(7, 7)\<close> raises \<open>KeyError\<close>, and so does
  \<open>g.get_shortest_path(0, -1)\<close> after \<open>g.add_edge(0, -1, 1.0)\<close> on the empty graph.
\<close>

theorem C2_overflow_counterexample:
  "nonneg_weights (add_edge (add_edge (Graph 0) 0 1 (2 ^ 1023)) 1 2 (2 ^ 1023))
   \<and> reachable (add_edge (add_edge (Graph 0) 0 1 (2 ^ 1023)) 1 2 (2 ^ 1023)) 0 2
   \<and> get_shortest_path (add_edge (add_edge (Graph 0) 0 1 (2 ^ 1023)) 1 2 (2 ^ 1023)) 0 2
       = Some (Inr ([], Infty))
   \<and> reachable (Graph 2) 7 7
   \<and> get_shortest_path (Graph 2) 7 7 = Some (Inl (KeyError 7))
   \<and> reachable (add_edge (Graph 0) 0 (- 1) 1) 0 (- 1)
   \<and> get_shortest_path (add_edge (Graph 0) 0 (- 1) 1) 0 (- 1) = Some (Inl (KeyError (- 1)))"
proof -
  have e: "(2::real) ^ 1023 = huge / 2" by (simp add: huge_def)
  define g where "g = add_edge (add_edge (Graph 0) 0 1 (huge / 2)) 1 2 (huge / 2)"
  have a: "adj g = [(0, [(1, huge / 2)]), (1, [(2, huge / 2)]), (2, [])]" "V g = 3"
    unfolding g_def by (rule adj_overflow)+
  have 1: "reachable g 0 1"
    by (rule reach_edge [of _ 0 0 1 "huge / 2", OF reach_source]) (simp add: adj_of_def a)
  have 2: "reachable g 0 2"
    by (rule reach_edge [of _ 0 1 2 "huge / 2", OF 1]) (simp add: adj_of_def a)
  have 3: "nonneg_weights g"
    using less_imp_le [OF huge_pos(1)] by (simp add: nonneg_weights_def a)
  have 4: "get_shortest_path g 0 2 = Some (Inr ([], Infty))"
    by (simp add: run_simps a fround_half_huge)
  have 5: "reachable (add_edge (Graph 0) 0 (- 1) 1) 0 (- 1)"
    by (rule reach_edge [of _ 0 0 "- 1" 1, OF reach_source])
      (simp add: adj_of_def adj_edge_to_minus_1)
  have 6: "get_shortest_path (Graph 2) 7 7 = Some (Inl (KeyError 7))"
    "get_shortest_path (add_edge (Graph 0) 0 (- 1) 1) 0 (- 1) = Some (Inl (KeyError (- 1)))"
    by (simp_all add: run_simps adj_graph_2 adj_edge_to_minus_1)
  from 2 3 4 5 6 show ?thesis
    unfolding e g_def [symmetric] by (simp add: reach_source)
qed

end
